theory Spec2Isabelle
  imports Main "HOL-Library.Char_ord" "HOL-Library.List_Lexorder"
begin

section \<open>Data model of Motorq-Conference-Booking.cpp\<close>

text \<open>
  \<^verbatim>\<open>struct Timestamp { time_t time; }\<close> is read as the integer it holds. The source only
  compares timestamps, subtracts two of them in the constructor of a conference and adds
  3600 to the clock; none of this comes near the bounds of a 64-bit \<^verbatim>\<open>time_t\<close>, so
  timestamps are \<^typ>\<open>int\<close>. Slot counters are \<^verbatim>\<open>int\<close> in the source and only move by one
  between 0 and \<open>totalSlots\<close>.
\<close>

record Conference =
  name :: string
  location :: string
  topics :: "string list"
  startTime :: int
  endTime :: int
  totalSlots :: int
  availableSlots :: int

datatype BookingStatus = CONFIRMED | WAITLISTED | CANCELED

record User =
  userId :: string
  interestedTopics :: "string list"
  bookingStatuses :: "(string \<times> BookingStatus) list"

text \<open>The field \<open>userId\<close> of the class Booking is \<open>bookingUserId\<close> here (record fields share
  one name space).\<close>

record Booking =
  bookingId :: string
  bookingUserId :: string
  conferenceName :: string
  status :: BookingStatus
  confirmationDeadline :: int

text \<open>
  Each \<^verbatim>\<open>throw runtime_error(...)\<close> of the source is one constructor; \<open>OutOfRange\<close> is the
  \<^verbatim>\<open>std::out_of_range\<close> of \<^verbatim>\<open>map::at\<close>.
\<close>

datatype error =
    TooManyTopics
  | SlotsNotPositive
  | DurationTooLong
  | StartNotBeforeEnd
  | TooManyInterestedTopics
  | ConferenceExists
  | UserExists
  | UserNotFound
  | ConferenceNotFound
  | BookingNotFound
  | BookStarted
  | ActiveBookingExists string
  | ConflictingBooking
  | AlreadyCanceled
  | CancelStarted
  | NotWaitlisted
  | ConfirmStarted
  | NowConflicting
  | NoSlotsAvailable
  | OutOfRange

datatype error_kind = NotFound | AlreadyExists | ValidationError | InvalidState | Conflict
  | Unclassified

text \<open>The grouping of the messages into the five kinds of section 7 of the specification;
  \<^verbatim>\<open>std::out_of_range\<close> is none of them.\<close>

fun kind_of :: "error \<Rightarrow> error_kind" where
  "kind_of TooManyTopics = ValidationError"
| "kind_of SlotsNotPositive = ValidationError"
| "kind_of DurationTooLong = ValidationError"
| "kind_of StartNotBeforeEnd = ValidationError"
| "kind_of TooManyInterestedTopics = ValidationError"
| "kind_of ConferenceExists = AlreadyExists"
| "kind_of UserExists = AlreadyExists"
| "kind_of UserNotFound = NotFound"
| "kind_of ConferenceNotFound = NotFound"
| "kind_of BookingNotFound = NotFound"
| "kind_of BookStarted = InvalidState"
| "kind_of (ActiveBookingExists _) = Conflict"
| "kind_of ConflictingBooking = Conflict"
| "kind_of AlreadyCanceled = InvalidState"
| "kind_of CancelStarted = InvalidState"
| "kind_of NotWaitlisted = InvalidState"
| "kind_of ConfirmStarted = InvalidState"
| "kind_of NowConflicting = Conflict"
| "kind_of NoSlotsAvailable = InvalidState"
| "kind_of OutOfRange = Unclassified"

subsection \<open>std::map as an association list in key order\<close>

text \<open>\<^verbatim>\<open>m[k] = v\<close>: overwrite the entry of \<open>k\<close>, or insert it at its place in key order.\<close>

fun map_assign :: "'k::linorder \<Rightarrow> 'v \<Rightarrow> ('k \<times> 'v) list \<Rightarrow> ('k \<times> 'v) list" where
  "map_assign k v [] = [(k, v)]"
| "map_assign k v ((k', v') # m) =
     (if k < k' then (k, v) # (k', v') # m
      else if k = k' then (k, v) # m
      else (k', v') # map_assign k v m)"

text \<open>\<^verbatim>\<open>m.emplace(k, v)\<close>: nothing happens when the key is already there.\<close>

definition map_emplace :: "'k::linorder \<Rightarrow> 'v \<Rightarrow> ('k \<times> 'v) list \<Rightarrow> ('k \<times> 'v) list" where
  "map_emplace k v m = (case map_of m k of None \<Rightarrow> map_assign k v m | Some _ \<Rightarrow> m)"

text \<open>A write through a reference to the entry of \<open>k\<close> (\<^verbatim>\<open>m.at(k).set...\<close>).\<close>

definition map_modify :: "'k \<Rightarrow> ('v \<Rightarrow> 'v) \<Rightarrow> ('k \<times> 'v) list \<Rightarrow> ('k \<times> 'v) list" where
  "map_modify k f m = map (\<lambda>(k', v). if k' = k then (k', f v) else (k', v)) m"

definition map_erase :: "'k \<Rightarrow> ('k \<times> 'v) list \<Rightarrow> ('k \<times> 'v) list" where
  "map_erase k m = filter (\<lambda>(k', v). k' \<noteq> k) m"

text \<open>\<^verbatim>\<open>waitlists[k]\<close> used as a reference: a missing queue is created empty.\<close>

definition map_index :: "string \<Rightarrow> (string \<times> string list) list \<Rightarrow> (string \<times> string list) list" where
  "map_index k w = (case map_of w k of None \<Rightarrow> map_assign k [] w | Some _ \<Rightarrow> w)"

definition queue_of :: "string \<Rightarrow> (string \<times> string list) list \<Rightarrow> string list" where
  "queue_of k w = (case map_of w k of None \<Rightarrow> [] | Some q \<Rightarrow> q)"

subsection \<open>Conference\<close>

definition decreaseAvailableSlots :: "Conference \<Rightarrow> bool \<times> Conference" where
  "decreaseAvailableSlots c =
     (if availableSlots c > 0 then (True, c\<lparr>availableSlots := availableSlots c - 1\<rparr>)
      else (False, c))"

definition increaseAvailableSlots :: "Conference \<Rightarrow> Conference" where
  "increaseAvailableSlots c =
     (if availableSlots c < totalSlots c then c\<lparr>availableSlots := availableSlots c + 1\<rparr>
      else c)"

text \<open>\<^verbatim>\<open>time(nullptr)\<close> is the first argument: every read of the clock is a parameter of the
  operation that reads it.\<close>

definition hasStarted :: "int \<Rightarrow> Conference \<Rightarrow> bool" where
  "hasStarted now c = (now \<ge> startTime c)"

definition hasSlotAvailable :: "Conference \<Rightarrow> bool" where
  "hasSlotAvailable c = (availableSlots c > 0)"

definition isTimeOverlapping :: "Conference \<Rightarrow> int \<Rightarrow> int \<Rightarrow> bool" where
  "isTimeOverlapping c start end = (\<not> (end \<le> startTime c \<or> start \<ge> endTime c))"

definition newConference ::
  "string \<Rightarrow> string \<Rightarrow> string list \<Rightarrow> int \<Rightarrow> int \<Rightarrow> int \<Rightarrow> error + Conference" where
  "newConference n loc ts start end slots =
     (if length ts > 10 then Inl TooManyTopics
      else if slots \<le> 0 then Inl SlotsNotPositive
      else if end - start > 12 * 3600 then Inl DurationTooLong
      else if start \<ge> end then Inl StartNotBeforeEnd
      else Inr \<lparr>name = n, location = loc, topics = ts, startTime = start, endTime = end,
                totalSlots = slots, availableSlots = slots\<rparr>)"

subsection \<open>User\<close>

definition newUser :: "string \<Rightarrow> string list \<Rightarrow> error + User" where
  "newUser uid ts =
     (if length ts > 50 then Inl TooManyInterestedTopics
      else Inr \<lparr>userId = uid, interestedTopics = ts, bookingStatuses = []\<rparr>)"

definition addBooking :: "string \<Rightarrow> BookingStatus \<Rightarrow> User \<Rightarrow> User" where
  "addBooking bid st u = u\<lparr>bookingStatuses := map_assign bid st (bookingStatuses u)\<rparr>"

definition updateBookingStatus :: "string \<Rightarrow> BookingStatus \<Rightarrow> User \<Rightarrow> User" where
  "updateBookingStatus bid st u =
     (case map_of (bookingStatuses u) bid of
        None \<Rightarrow> u
      | Some _ \<Rightarrow> u\<lparr>bookingStatuses := map_assign bid st (bookingStatuses u)\<rparr>)"

definition removeBooking :: "string \<Rightarrow> User \<Rightarrow> User" where
  "removeBooking bid u = u\<lparr>bookingStatuses := map_erase bid (bookingStatuses u)\<rparr>"

definition getActiveBookings :: "User \<Rightarrow> string list" where
  "getActiveBookings u = map fst (filter (\<lambda>(bid, st). st \<noteq> CANCELED) (bookingStatuses u))"

subsection \<open>Booking\<close>

text \<open>\<^verbatim>\<open>to_string\<close> of a \<^verbatim>\<open>time_t\<close>: the decimal digits, with a sign when negative.\<close>

fun digits :: "nat \<Rightarrow> string" where
  "digits n =
     (if n < 10 then [''0123456789'' ! n] else digits (n div 10) @ [''0123456789'' ! (n mod 10)])"

declare digits.simps [simp del]

definition to_string :: "int \<Rightarrow> string" where
  "to_string i = (if i < 0 then CHR ''-'' # digits (nat (- i)) else digits (nat i))"

text \<open>
  The constructor \<^verbatim>\<open>Booking(userId, confName)\<close> reads the clock (\<open>now\<close>) for the id and
  leaves \<^verbatim>\<open>confirmationDeadline\<close> uninitialised: \<open>junk\<close> is the value that the member
  happens to hold.
\<close>

definition newBooking :: "string \<Rightarrow> string \<Rightarrow> int \<Rightarrow> int \<Rightarrow> Booking" where
  "newBooking uid cn now junk =
     \<lparr>bookingId = uid @ ''_'' @ cn @ ''_'' @ to_string now, bookingUserId = uid,
      conferenceName = cn, status = CONFIRMED, confirmationDeadline = junk\<rparr>"

definition setStatus :: "BookingStatus \<Rightarrow> Booking \<Rightarrow> Booking" where
  "setStatus st b = b\<lparr>status := st\<rparr>"

definition setConfirmationDeadline :: "int \<Rightarrow> Booking \<Rightarrow> Booking" where
  "setConfirmationDeadline d b = b\<lparr>confirmationDeadline := d\<rparr>"

subsection \<open>ConferenceBookingSystem\<close>

record System =
  conferences :: "(string \<times> Conference) list"
  users :: "(string \<times> User) list"
  bookings :: "(string \<times> Booking) list"
  waitlists :: "(string \<times> string list) list"

definition init :: System where
  "init = \<lparr>conferences = [], users = [], bookings = [], waitlists = []\<rparr>"

text \<open>The loop of hasConflictingBooking over the active booking ids of the user.\<close>

fun conflict_loop :: "string list \<Rightarrow> Conference \<Rightarrow> System \<Rightarrow> error + bool" where
  "conflict_loop [] nc s = Inr False"
| "conflict_loop (k # ks) nc s =
     (case map_of (bookings s) k of
        None \<Rightarrow> Inl OutOfRange
      | Some b \<Rightarrow>
          if status b = CANCELED then conflict_loop ks nc s
          else if status b \<noteq> CONFIRMED then conflict_loop ks nc s
          else (case map_of (conferences s) (conferenceName b) of
                  None \<Rightarrow> Inl OutOfRange
                | Some ec \<Rightarrow>
                    if isTimeOverlapping ec (startTime nc) (endTime nc) then Inr True
                    else conflict_loop ks nc s))"

definition hasConflictingBooking :: "string \<Rightarrow> Conference \<Rightarrow> System \<Rightarrow> error + bool" where
  "hasConflictingBooking uid nc s =
     (case map_of (users s) uid of
        None \<Rightarrow> Inl OutOfRange
      | Some u \<Rightarrow> conflict_loop (getActiveBookings u) nc s)"

text \<open>
  The inner loop of removeFromOverlappingWaitlists: \<open>q\<close> is what is left of the queue
  (popped through the reference), \<open>acc\<close> is \<^verbatim>\<open>updatedQueue\<close>. \<open>Inl\<close> is the state of both at
  the moment \<^verbatim>\<open>bookings.at\<close> throws.
\<close>

fun evict_queue ::
  "string \<Rightarrow> string list \<Rightarrow> string list \<Rightarrow> (string \<times> Booking) list \<Rightarrow>
   (string list \<times> (string \<times> Booking) list) + (string list \<times> (string \<times> Booking) list)" where
  "evict_queue uid [] acc bs = Inr (acc, bs)"
| "evict_queue uid (k # q) acc bs =
     (case map_of bs k of
        None \<Rightarrow> Inl (q, bs)
      | Some b \<Rightarrow>
          if bookingUserId b \<noteq> uid then evict_queue uid q (acc @ [k]) bs
          else evict_queue uid q acc (map_modify k (setStatus CANCELED) bs))"

fun evict_confs :: "string \<Rightarrow> string list \<Rightarrow> System \<Rightarrow> (error + unit) \<times> System" where
  "evict_confs uid [] s = (Inr (), s)"
| "evict_confs uid (cn # cns) s =
     (let w = map_index cn (waitlists s) in
      case evict_queue uid (queue_of cn w) [] (bookings s) of
        Inl (rest, bs) \<Rightarrow> (Inl OutOfRange, s\<lparr>bookings := bs, waitlists := map_assign cn rest w\<rparr>)
      | Inr (updatedQueue, bs) \<Rightarrow>
          evict_confs uid cns (s\<lparr>bookings := bs, waitlists := map_assign cn updatedQueue w\<rparr>))"

definition removeFromOverlappingWaitlists ::
  "string \<Rightarrow> Conference \<Rightarrow> System \<Rightarrow> (error + unit) \<times> System" where
  "removeFromOverlappingWaitlists uid bookedConf s =
     evict_confs uid
       (map fst (filter (\<lambda>(confName, conf). confName \<noteq> name bookedConf \<and>
            isTimeOverlapping conf (startTime bookedConf) (endTime bookedConf)) (conferences s)))
       s"

fun cancel_queue ::
  "string list \<Rightarrow> (string \<times> Booking) list \<Rightarrow>
   (string list \<times> (string \<times> Booking) list) + (string \<times> Booking) list" where
  "cancel_queue [] bs = Inr bs"
| "cancel_queue (k # q) bs =
     (case map_of bs k of
        None \<Rightarrow> Inl (q, bs)
      | Some b \<Rightarrow> cancel_queue q (map_modify k (setStatus CANCELED) bs))"

definition cancelAllWaitlistedBookings :: "string \<Rightarrow> System \<Rightarrow> (error + unit) \<times> System" where
  "cancelAllWaitlistedBookings cn s =
     (let w = map_index cn (waitlists s) in
      case cancel_queue (queue_of cn w) (bookings s) of
        Inl (rest, bs) \<Rightarrow> (Inl OutOfRange, s\<lparr>bookings := bs, waitlists := map_assign cn rest w\<rparr>)
      | Inr bs \<Rightarrow> (Inr (), s\<lparr>bookings := bs, waitlists := map_assign cn [] w\<rparr>))"

text \<open>processWaitlist with setWaitlistConfirmationDeadline inlined; \<open>now\<close> is the clock read
  by the latter.\<close>

definition processWaitlist :: "string \<Rightarrow> int \<Rightarrow> System \<Rightarrow> (error + unit) \<times> System" where
  "processWaitlist cn now s =
     (let s1 = s\<lparr>waitlists := map_index cn (waitlists s)\<rparr> in
      case queue_of cn (waitlists s1) of
        [] \<Rightarrow> (Inr (), s1)
      | nextBookingId # _ \<Rightarrow>
          (case map_of (bookings s1) nextBookingId of
             None \<Rightarrow> (Inl OutOfRange, s1)
           | Some _ \<Rightarrow>
               (Inr (), s1\<lparr>bookings := map_modify nextBookingId
                                 (setConfirmationDeadline (now + 3600)) (bookings s1)\<rparr>)))"

definition addConference ::
  "string \<Rightarrow> string \<Rightarrow> string list \<Rightarrow> int \<Rightarrow> int \<Rightarrow> int \<Rightarrow> System \<Rightarrow> (error + unit) \<times> System" where
  "addConference n loc ts start end slots s =
     (case map_of (conferences s) n of
        Some _ \<Rightarrow> (Inl ConferenceExists, s)
      | None \<Rightarrow>
          (case newConference n loc ts start end slots of
             Inl e \<Rightarrow> (Inl e, s)
           | Inr c \<Rightarrow> (Inr (), s\<lparr>conferences := map_emplace n c (conferences s)\<rparr>)))"

definition addUser :: "string \<Rightarrow> string list \<Rightarrow> System \<Rightarrow> (error + unit) \<times> System" where
  "addUser uid ts s =
     (case map_of (users s) uid of
        Some _ \<Rightarrow> (Inl UserExists, s)
      | None \<Rightarrow>
          (case newUser uid ts of
             Inl e \<Rightarrow> (Inl e, s)
           | Inr u \<Rightarrow> (Inr (), s\<lparr>users := map_emplace uid u (users s)\<rparr>)))"

text \<open>
  bookConference. \<open>t1\<close> is the clock read by \<^verbatim>\<open>hasStarted\<close>, \<open>t2\<close> the one read by the
  constructor of the booking, \<open>junk\<close> the uninitialised deadline of the new booking.
\<close>

definition bookConference ::
  "string \<Rightarrow> string \<Rightarrow> int \<Rightarrow> int \<Rightarrow> int \<Rightarrow> System \<Rightarrow> (error + string) \<times> System" where
  "bookConference uid cn t1 t2 junk s =
     (case map_of (users s) uid of
        None \<Rightarrow> (Inl UserNotFound, s)
      | Some _ \<Rightarrow>
     (case map_of (conferences s) cn of
        None \<Rightarrow> (Inl ConferenceNotFound, s)
      | Some conference \<Rightarrow>
     if hasStarted t1 conference then (Inl BookStarted, s)
     else
     (case find (\<lambda>(bid, b). bookingUserId b = uid \<and> conferenceName b = cn \<and>
                   status b \<noteq> CANCELED) (bookings s) of
        Some (bid, b) \<Rightarrow> (Inl (ActiveBookingExists bid), s)
      | None \<Rightarrow>
     (case hasConflictingBooking uid conference s of
        Inl e \<Rightarrow> (Inl e, s)
      | Inr True \<Rightarrow> (Inl ConflictingBooking, s)
      | Inr False \<Rightarrow>
     (let nb = newBooking uid cn t2 junk; bid = bookingId nb in
      case decreaseAvailableSlots conference of
        (True, conference') \<Rightarrow>
          (let s1 = s\<lparr>conferences := map_modify cn (\<lambda>_. conference') (conferences s)\<rparr> in
           case removeFromOverlappingWaitlists uid conference' s1 of
             (Inl e, s2) \<Rightarrow> (Inl e, s2)
           | (Inr _, s2) \<Rightarrow>
               (let s3 = s2\<lparr>bookings := map_emplace bid (setStatus CONFIRMED nb) (bookings s2)\<rparr> in
                case map_of (users s3) uid of
                  None \<Rightarrow> (Inl OutOfRange, s3)
                | Some _ \<Rightarrow>
                    (Inr bid, s3\<lparr>users := map_modify uid (addBooking bid CONFIRMED) (users s3)\<rparr>)))
      | (False, _) \<Rightarrow>
          (let w = map_index cn (waitlists s);
               s1 = s\<lparr>waitlists := map_assign cn (queue_of cn w @ [bid]) w\<rparr>;
               s3 = s1\<lparr>bookings := map_emplace bid (setStatus WAITLISTED nb) (bookings s1)\<rparr> in
           case map_of (users s3) uid of
             None \<Rightarrow> (Inl OutOfRange, s3)
           | Some _ \<Rightarrow>
               (Inr bid, s3\<lparr>users := map_modify uid (addBooking bid WAITLISTED) (users s3)\<rparr>)))))))"

text \<open>cancelBooking. \<open>t1\<close> is the clock read by \<^verbatim>\<open>hasStarted\<close>, \<open>t2\<close> the one read when the
  deadline of the head of the waitlist is set.\<close>

definition cancelBooking :: "string \<Rightarrow> int \<Rightarrow> int \<Rightarrow> System \<Rightarrow> (error + bool) \<times> System" where
  "cancelBooking bid t1 t2 s =
     (case map_of (bookings s) bid of
        None \<Rightarrow> (Inl BookingNotFound, s)
      | Some booking \<Rightarrow>
     if status booking = CANCELED then (Inl AlreadyCanceled, s)
     else
     (case map_of (conferences s) (conferenceName booking) of
        None \<Rightarrow> (Inl OutOfRange, s)
      | Some conference \<Rightarrow>
     if hasStarted t1 conference then (Inl CancelStarted, s)
     else
     (let cn = conferenceName booking in
      case (if status booking = CONFIRMED then
              processWaitlist cn t2
                (s\<lparr>conferences := map_modify cn increaseAvailableSlots (conferences s)\<rparr>)
            else if status booking = WAITLISTED then
              (let w = map_index cn (waitlists s) in
               (Inr (), s\<lparr>waitlists := map_assign cn (filter (\<lambda>k. k \<noteq> bid) (queue_of cn w)) w\<rparr>))
            else (Inr (), s)) of
        (Inl e, s1) \<Rightarrow> (Inl e, s1)
      | (Inr _, s1) \<Rightarrow>
          (let s2 = s1\<lparr>bookings := map_modify bid (setStatus CANCELED) (bookings s1)\<rparr> in
           case map_of (users s2) (bookingUserId booking) of
             None \<Rightarrow> (Inl OutOfRange, s2)
           | Some _ \<Rightarrow>
               (Inr True, s2\<lparr>users := map_modify (bookingUserId booking) (removeBooking bid)
                                        (users s2)\<rparr>)))))"

text \<open>confirmWaitlistedBooking. \<open>t1\<close> is the clock read by \<^verbatim>\<open>hasStarted\<close>, \<open>t2\<close> the one
  compared with the deadline, \<open>t3\<close> the one read when the promotion trigger runs again.\<close>

definition confirmWaitlistedBooking ::
  "string \<Rightarrow> int \<Rightarrow> int \<Rightarrow> int \<Rightarrow> System \<Rightarrow> (error + bool) \<times> System" where
  "confirmWaitlistedBooking bid t1 t2 t3 s =
     (case map_of (bookings s) bid of
        None \<Rightarrow> (Inl BookingNotFound, s)
      | Some booking \<Rightarrow>
     if status booking \<noteq> WAITLISTED then (Inl NotWaitlisted, s)
     else
     (let cn = conferenceName booking in
      case map_of (conferences s) cn of
        None \<Rightarrow> (Inl OutOfRange, s)
      | Some conference \<Rightarrow>
     if hasStarted t1 conference then
       (case cancelAllWaitlistedBookings cn s of
          (Inl e, s1) \<Rightarrow> (Inl e, s1)
        | (Inr _, s1) \<Rightarrow> (Inl ConfirmStarted, s1))
     else if t2 > confirmationDeadline booking then
       (let w = map_index cn (waitlists s);
            q = queue_of cn w;
            updatedQueue = filter (\<lambda>k. k \<noteq> bid) q @ (if bid \<in> set q then [bid] else []);
            s1 = s\<lparr>waitlists := map_assign cn updatedQueue w\<rparr> in
        if hasSlotAvailable conference then
          (case processWaitlist cn t3 s1 of
             (Inl e, s2) \<Rightarrow> (Inl e, s2)
           | (Inr _, s2) \<Rightarrow> (Inr False, s2))
        else (Inr False, s1))
     else
     (case hasConflictingBooking (bookingUserId booking) conference s of
        Inl e \<Rightarrow> (Inl e, s)
      | Inr True \<Rightarrow> (Inl NowConflicting, s)
      | Inr False \<Rightarrow>
     (case decreaseAvailableSlots conference of
        (False, _) \<Rightarrow> (Inl NoSlotsAvailable, s)
      | (True, conference') \<Rightarrow>
          (let s1 = s\<lparr>conferences := map_modify cn (\<lambda>_. conference') (conferences s)\<rparr>;
               w = map_index cn (waitlists s1);
               s2 = s1\<lparr>waitlists := map_assign cn (filter (\<lambda>k. k \<noteq> bid) (queue_of cn w)) w\<rparr>;
               s3 = s2\<lparr>bookings := map_modify bid (setStatus CONFIRMED) (bookings s2)\<rparr> in
           case removeFromOverlappingWaitlists (bookingUserId booking) conference' s3 of
             (Inl e, s4) \<Rightarrow> (Inl e, s4)
           | (Inr _, s4) \<Rightarrow> (Inr True, s4))))))"

definition getBookingStatus :: "string \<Rightarrow> System \<Rightarrow> error + BookingStatus" where
  "getBookingStatus bid s =
     (case map_of (bookings s) bid of
        None \<Rightarrow> Inl BookingNotFound
      | Some booking \<Rightarrow>
          if status booking = WAITLISTED then
            (case map_of (conferences s) (conferenceName booking) of
               None \<Rightarrow> Inl OutOfRange
             | Some _ \<Rightarrow> Inr (status booking))
          else Inr (status booking))"

subsection \<open>Sequences of calls\<close>

datatype call =
    AddConference string string "string list" int int int
  | AddUser string "string list"
  | BookConference string string int int int
  | CancelBooking string int int
  | ConfirmWaitlistedBooking string int int int
  | GetBookingStatus string

datatype outcome = Done | BookingIdOf string | Flag bool | StatusOf BookingStatus

fun exec :: "call \<Rightarrow> System \<Rightarrow> (error + outcome) \<times> System" where
  "exec (AddConference n loc ts start end slots) s =
     (case addConference n loc ts start end slots s of (r, s') \<Rightarrow> (map_sum id (\<lambda>_. Done) r, s'))"
| "exec (AddUser uid ts) s =
     (case addUser uid ts s of (r, s') \<Rightarrow> (map_sum id (\<lambda>_. Done) r, s'))"
| "exec (BookConference uid cn t1 t2 junk) s =
     (case bookConference uid cn t1 t2 junk s of (r, s') \<Rightarrow> (map_sum id BookingIdOf r, s'))"
| "exec (CancelBooking bid t1 t2) s =
     (case cancelBooking bid t1 t2 s of (r, s') \<Rightarrow> (map_sum id Flag r, s'))"
| "exec (ConfirmWaitlistedBooking bid t1 t2 t3) s =
     (case confirmWaitlistedBooking bid t1 t2 t3 s of (r, s') \<Rightarrow> (map_sum id Flag r, s'))"
| "exec (GetBookingStatus bid) s = (map_sum id StatusOf (getBookingStatus bid s), s)"

text \<open>The state after a sequence of calls; a call that throws leaves the state it had
  reached, and the driver goes on with the next call.\<close>

fun run :: "System \<Rightarrow> call list \<Rightarrow> System" where
  "run s [] = s"
| "run s (c # cs) = run (snd (exec c s)) cs"

subsection \<open>What the operations rely on\<close>

text \<open>
  \<open>holdsOverlapping u nc s\<close> is the condition of the specification for a conflict: the ledger
  of the user holds the id of a booking that the booking table has as CONFIRMED and whose
  conference overlaps the window of \<open>nc\<close>. It is what the loop of hasConflictingBooking is
  compared with.
\<close>

definition holdsOverlapping :: "User \<Rightarrow> Conference \<Rightarrow> System \<Rightarrow> bool" where
  "holdsOverlapping u nc s =
     (\<exists>k\<in>fst ` set (bookingStatuses u). \<exists>b ec. map_of (bookings s) k = Some b \<and>
        status b = CONFIRMED \<and> map_of (conferences s) (conferenceName b) = Some ec \<and>
        isTimeOverlapping ec (startTime nc) (endTime nc))"

text \<open>
  The properties below hold in every state that a sequence of calls reaches from the empty
  system (\<open>consistent_run\<close>): a conference is stored under its own name; every id in a
  waitlist, and every id in a ledger, is a key of the booking table, and no ledger stores
  CANCELED; the conference and the user of a booking are registered; a booking that is not
  CANCELED is in the ledger of its user; a WAITLISTED booking is in the waitlist of its
  conference; and two CONFIRMED bookings of one user never overlap.
\<close>

definition names_ok :: "System \<Rightarrow> bool" where
  "names_ok s = (\<forall>cn c. map_of (conferences s) cn = Some c \<longrightarrow> name c = cn)"

definition queued_known :: "System \<Rightarrow> bool" where
  "queued_known s =
     (\<forall>cn k. k \<in> set (queue_of cn (waitlists s)) \<longrightarrow> map_of (bookings s) k \<noteq> None)"

definition booking_refs :: "System \<Rightarrow> bool" where
  "booking_refs s =
     (\<forall>k b. map_of (bookings s) k = Some b \<longrightarrow>
        map_of (conferences s) (conferenceName b) \<noteq> None \<and>
        map_of (users s) (bookingUserId b) \<noteq> None)"

definition ledger_ok :: "System \<Rightarrow> bool" where
  "ledger_ok s =
     (\<forall>uid u k st. map_of (users s) uid = Some u \<and> (k, st) \<in> set (bookingStatuses u) \<longrightarrow>
        st \<noteq> CANCELED \<and> map_of (bookings s) k \<noteq> None)"

definition ledger_covers :: "System \<Rightarrow> bool" where
  "ledger_covers s =
     (\<forall>k b. map_of (bookings s) k = Some b \<and> status b \<noteq> CANCELED \<longrightarrow>
        (\<exists>u. map_of (users s) (bookingUserId b) = Some u \<and> k \<in> fst ` set (bookingStatuses u)))"

definition waiting_queued :: "System \<Rightarrow> bool" where
  "waiting_queued s =
     (\<forall>k b. map_of (bookings s) k = Some b \<and> status b = WAITLISTED \<longrightarrow>
        k \<in> set (queue_of (conferenceName b) (waitlists s)))"

definition no_overlap :: "System \<Rightarrow> bool" where
  "no_overlap s =
     (\<forall>k1 k2 b1 b2 c1 c2.
        k1 \<noteq> k2 \<and> map_of (bookings s) k1 = Some b1 \<and> map_of (bookings s) k2 = Some b2 \<and>
        bookingUserId b1 = bookingUserId b2 \<and> status b1 = CONFIRMED \<and> status b2 = CONFIRMED \<and>
        map_of (conferences s) (conferenceName b1) = Some c1 \<and>
        map_of (conferences s) (conferenceName b2) = Some c2 \<longrightarrow>
        \<not> isTimeOverlapping c1 (startTime c2) (endTime c2))"

definition consistent :: "System \<Rightarrow> bool" where
  "consistent s = (names_ok s \<and> queued_known s \<and> booking_refs s \<and> ledger_ok s \<and> ledger_covers s \<and>
           waiting_queued s \<and> no_overlap s)"

text \<open>
  \<open>evicted uid cns s s'\<close> describes what removeFromOverlappingWaitlists has done once it has
  gone through the conferences \<open>cns\<close>: their waitlists have lost the bookings of \<open>uid\<close>, in
  the order they had, and these bookings are CANCELED.
\<close>

definition owned_by :: "(string \<times> Booking) list \<Rightarrow> string \<Rightarrow> string \<Rightarrow> bool" where
  "owned_by bs uid k = (map_option bookingUserId (map_of bs k) = Some uid)"

definition evicted :: "string \<Rightarrow> string list \<Rightarrow> System \<Rightarrow> System \<Rightarrow> bool" where
  "evicted uid cns s s' =
     (conferences s' = conferences s \<and> users s' = users s \<and>
      (\<forall>c. queue_of c (waitlists s') =
         (if c \<in> set cns
          then filter (\<lambda>k. \<not> owned_by (bookings s) uid k) (queue_of c (waitlists s))
          else queue_of c (waitlists s))) \<and>
      (\<forall>k. map_of (bookings s') k =
         (if owned_by (bookings s) uid k \<and>
             (\<exists>c\<in>set cns. k \<in> set (queue_of c (waitlists s)))
          then map_option (setStatus CANCELED) (map_of (bookings s) k)
          else map_of (bookings s) k)))"

text \<open>What never changes in a registered conference.\<close>

definition window :: "Conference \<Rightarrow> string \<times> int \<times> int" where
  "window c = (name c, startTime c, endTime c)"

text \<open>The bounds of the slot counter.\<close>

definition slots_bounded :: "System \<Rightarrow> bool" where
  "slots_bounded s =
     (\<forall>cn c. map_of (conferences s) cn = Some c \<longrightarrow>
        0 \<le> availableSlots c \<and> availableSlots c \<le> totalSlots c)"

text \<open>The number of entries of the booking table that are CONFIRMED bookings of a
  conference.\<close>

definition confirmedCount :: "string \<Rightarrow> System \<Rightarrow> int" where
  "confirmedCount cn s =
     int (length (filter (\<lambda>(bid, b). conferenceName b = cn \<and> status b = CONFIRMED) (bookings s)))"

subsection \<open>Executions referred to below\<close>

text \<open>One user books a conference of one slot, cancels, and books it again, the clock
  reading 1800000000 throughout.\<close>

definition rebook_calls :: "call list" where
  "rebook_calls =
     [AddConference ''X'' ''NY'' [] 1800003600 1800010800 1,
      AddUser ''u'' [],
      BookConference ''u'' ''X'' 1800000000 1800000000 0,
      CancelBooking ''u_X_1800000000'' 1800000000 1800000000,
      BookConference ''u'' ''X'' 1800000000 1800000000 0]"

text \<open>The first scenario of section 8 of the specification: a conference of one slot that
  starts at 1800003600; A books it, B is waitlisted, A cancels, B confirms in time.\<close>

definition promote_calls :: "call list" where
  "promote_calls =
     [AddConference ''C'' ''NY'' [] 1800003600 1800010800 1,
      AddUser ''A'' [], AddUser ''B'' [], AddUser ''D'' [],
      BookConference ''A'' ''C'' 1800000000 1800000000 0,
      BookConference ''B'' ''C'' 1800000001 1800000001 0,
      CancelBooking ''A_C_1800000000'' 1800000002 1800000002,
      ConfirmWaitlistedBooking ''B_C_1800000001'' 1800000003 1800000003 1800000003]"

text \<open>The same up to the cancellation of A; then nothing happens until the conference has
  started.\<close>

definition freed_calls :: "call list" where
  "freed_calls = take 7 promote_calls"

text \<open>Two bookings wait, B before D; the deadline member of D's booking happens to hold
  140737488355327. A cancels.\<close>

definition two_waiting_calls :: "call list" where
  "two_waiting_calls =
     [AddConference ''C'' ''NY'' [] 1800003600 1800010800 1,
      AddUser ''A'' [], AddUser ''B'' [], AddUser ''D'' [],
      BookConference ''A'' ''C'' 1800000000 1800000000 0,
      BookConference ''B'' ''C'' 1800000001 1800000001 0,
      BookConference ''D'' ''C'' 1800000002 1800000002 140737488355327,
      CancelBooking ''A_C_1800000000'' 1800000003 1800000003]"


text \<open>One user books two conferences, the second starting exactly when the first ends.\<close>

definition back_to_back_calls :: "call list" where
  "back_to_back_calls =
     [AddConference ''P'' ''NY'' [] 1800003600 1800010800 1,
      AddConference ''Q'' ''NY'' [] 1800010800 1800018000 1,
      AddUser ''u'' [],
      BookConference ''u'' ''P'' 1800000000 1800000000 0,
      BookConference ''u'' ''Q'' 1800000001 1800000001 0]"


text \<open>A conference that starts at 1800020000; B and D wait, A cancels at 1800000003, so that
  the booking of B gets the deadline 1800003603.\<close>

definition late_start_calls :: "call list" where
  "late_start_calls =
     [AddConference ''C'' ''NY'' [] 1800020000 1800030000 1,
      AddUser ''A'' [], AddUser ''B'' [], AddUser ''D'' [],
      BookConference ''A'' ''C'' 1800000000 1800000000 0,
      BookConference ''B'' ''C'' 1800000001 1800000001 0,
      BookConference ''D'' ''C'' 1800000002 1800000002 0,
      CancelBooking ''A_C_1800000000'' 1800000003 1800000003]"

section \<open>Evaluating the model\<close>

lemmas model_defs = addConference_def newConference_def addUser_def newUser_def
  bookConference_def cancelBooking_def confirmWaitlistedBooking_def getBookingStatus_def
  processWaitlist_def cancelAllWaitlistedBookings_def removeFromOverlappingWaitlists_def
  hasConflictingBooking_def getActiveBookings_def newBooking_def to_string_def digits.simps
  decreaseAvailableSlots_def increaseAvailableSlots_def hasStarted_def hasSlotAvailable_def
  isTimeOverlapping_def map_emplace_def map_modify_def map_erase_def map_index_def queue_of_def
  setStatus_def setConfirmationDeadline_def addBooking_def removeBooking_def init_def Let_def

lemma run_append: "run s (xs @ ys) = run (run s xs) ys"
  by (induction xs arbitrary: s) simp_all

lemma run_snoc: "run s (xs @ [c]) = snd (exec c (run s xs))"
  by (simp add: run_append)

lemma rebook_booked:
  "run init (take 3 rebook_calls) =
     \<lparr>conferences = [(''X'', \<lparr>name = ''X'', location = ''NY'', topics = [],
         startTime = 1800003600, endTime = 1800010800, totalSlots = 1, availableSlots = 0\<rparr>)],
      users = [(''u'', \<lparr>userId = ''u'', interestedTopics = [],
         bookingStatuses = [(''u_X_1800000000'', CONFIRMED)]\<rparr>)],
      bookings = [(''u_X_1800000000'', \<lparr>bookingId = ''u_X_1800000000'', bookingUserId = ''u'',
         conferenceName = ''X'', status = CONFIRMED, confirmationDeadline = 0\<rparr>)],
      waitlists = []\<rparr>"
  by (simp add: rebook_calls_def model_defs)

lemma rebook_canceled:
  "run init (take 4 rebook_calls) =
     \<lparr>conferences = [(''X'', \<lparr>name = ''X'', location = ''NY'', topics = [],
         startTime = 1800003600, endTime = 1800010800, totalSlots = 1, availableSlots = 1\<rparr>)],
      users = [(''u'', \<lparr>userId = ''u'', interestedTopics = [], bookingStatuses = []\<rparr>)],
      bookings = [(''u_X_1800000000'', \<lparr>bookingId = ''u_X_1800000000'', bookingUserId = ''u'',
         conferenceName = ''X'', status = CANCELED, confirmationDeadline = 0\<rparr>)],
      waitlists = [(''X'', [])]\<rparr>"
  by (simp add: rebook_calls_def model_defs)

lemma rebook_final:
  "run init rebook_calls =
     \<lparr>conferences = [(''X'', \<lparr>name = ''X'', location = ''NY'', topics = [],
         startTime = 1800003600, endTime = 1800010800, totalSlots = 1, availableSlots = 0\<rparr>)],
      users = [(''u'', \<lparr>userId = ''u'', interestedTopics = [],
         bookingStatuses = [(''u_X_1800000000'', CONFIRMED)]\<rparr>)],
      bookings = [(''u_X_1800000000'', \<lparr>bookingId = ''u_X_1800000000'', bookingUserId = ''u'',
         conferenceName = ''X'', status = CANCELED, confirmationDeadline = 0\<rparr>)],
      waitlists = [(''X'', [])]\<rparr>"
  by (simp add: rebook_calls_def model_defs)

lemma freed_state:
  "run init freed_calls =
     \<lparr>conferences = [(''C'', \<lparr>name = ''C'', location = ''NY'', topics = [],
         startTime = 1800003600, endTime = 1800010800, totalSlots = 1, availableSlots = 1\<rparr>)],
      users = [(''A'', \<lparr>userId = ''A'', interestedTopics = [], bookingStatuses = []\<rparr>),
               (''B'', \<lparr>userId = ''B'', interestedTopics = [],
                  bookingStatuses = [(''B_C_1800000001'', WAITLISTED)]\<rparr>),
               (''D'', \<lparr>userId = ''D'', interestedTopics = [], bookingStatuses = []\<rparr>)],
      bookings = [(''A_C_1800000000'', \<lparr>bookingId = ''A_C_1800000000'', bookingUserId = ''A'',
                     conferenceName = ''C'', status = CANCELED, confirmationDeadline = 0\<rparr>),
                  (''B_C_1800000001'', \<lparr>bookingId = ''B_C_1800000001'', bookingUserId = ''B'',
                     conferenceName = ''C'', status = WAITLISTED,
                     confirmationDeadline = 1800003602\<rparr>)],
      waitlists = [(''C'', [''B_C_1800000001''])]\<rparr>"
  by (simp add: freed_calls_def promote_calls_def model_defs)

lemma promote_final:
  "run init promote_calls =
     \<lparr>conferences = [(''C'', \<lparr>name = ''C'', location = ''NY'', topics = [],
         startTime = 1800003600, endTime = 1800010800, totalSlots = 1, availableSlots = 0\<rparr>)],
      users = [(''A'', \<lparr>userId = ''A'', interestedTopics = [], bookingStatuses = []\<rparr>),
               (''B'', \<lparr>userId = ''B'', interestedTopics = [],
                  bookingStatuses = [(''B_C_1800000001'', WAITLISTED)]\<rparr>),
               (''D'', \<lparr>userId = ''D'', interestedTopics = [], bookingStatuses = []\<rparr>)],
      bookings = [(''A_C_1800000000'', \<lparr>bookingId = ''A_C_1800000000'', bookingUserId = ''A'',
                     conferenceName = ''C'', status = CANCELED, confirmationDeadline = 0\<rparr>),
                  (''B_C_1800000001'', \<lparr>bookingId = ''B_C_1800000001'', bookingUserId = ''B'',
                     conferenceName = ''C'', status = CONFIRMED,
                     confirmationDeadline = 1800003602\<rparr>)],
      waitlists = [(''C'', [])]\<rparr>"
  by (simp add: promote_calls_def model_defs)

lemma two_waiting_state:
  "run init two_waiting_calls =
     \<lparr>conferences = [(''C'', \<lparr>name = ''C'', location = ''NY'', topics = [],
         startTime = 1800003600, endTime = 1800010800, totalSlots = 1, availableSlots = 1\<rparr>)],
      users = [(''A'', \<lparr>userId = ''A'', interestedTopics = [], bookingStatuses = []\<rparr>),
               (''B'', \<lparr>userId = ''B'', interestedTopics = [],
                  bookingStatuses = [(''B_C_1800000001'', WAITLISTED)]\<rparr>),
               (''D'', \<lparr>userId = ''D'', interestedTopics = [],
                  bookingStatuses = [(''D_C_1800000002'', WAITLISTED)]\<rparr>)],
      bookings = [(''A_C_1800000000'', \<lparr>bookingId = ''A_C_1800000000'', bookingUserId = ''A'',
                     conferenceName = ''C'', status = CANCELED, confirmationDeadline = 0\<rparr>),
                  (''B_C_1800000001'', \<lparr>bookingId = ''B_C_1800000001'', bookingUserId = ''B'',
                     conferenceName = ''C'', status = WAITLISTED,
                     confirmationDeadline = 1800003603\<rparr>),
                  (''D_C_1800000002'', \<lparr>bookingId = ''D_C_1800000002'', bookingUserId = ''D'',
                     conferenceName = ''C'', status = WAITLISTED,
                     confirmationDeadline = 140737488355327\<rparr>)],
      waitlists = [(''C'', [''B_C_1800000001'', ''D_C_1800000002''])]\<rparr>"
  by (simp add: two_waiting_calls_def model_defs)


lemma waiting_state:
  "run init (take 6 promote_calls) =
     \<lparr>conferences = [(''C'', \<lparr>name = ''C'', location = ''NY'', topics = [],
         startTime = 1800003600, endTime = 1800010800, totalSlots = 1, availableSlots = 0\<rparr>)],
      users = [(''A'', \<lparr>userId = ''A'', interestedTopics = [],
                  bookingStatuses = [(''A_C_1800000000'', CONFIRMED)]\<rparr>),
               (''B'', \<lparr>userId = ''B'', interestedTopics = [],
                  bookingStatuses = [(''B_C_1800000001'', WAITLISTED)]\<rparr>),
               (''D'', \<lparr>userId = ''D'', interestedTopics = [], bookingStatuses = []\<rparr>)],
      bookings = [(''A_C_1800000000'', \<lparr>bookingId = ''A_C_1800000000'', bookingUserId = ''A'',
                     conferenceName = ''C'', status = CONFIRMED, confirmationDeadline = 0\<rparr>),
                  (''B_C_1800000001'', \<lparr>bookingId = ''B_C_1800000001'', bookingUserId = ''B'',
                     conferenceName = ''C'', status = WAITLISTED, confirmationDeadline = 0\<rparr>)],
      waitlists = [(''C'', [''B_C_1800000001''])]\<rparr>"
  by (simp add: promote_calls_def model_defs)

lemma back_to_back_state:
  "run init back_to_back_calls =
     \<lparr>conferences = [(''P'', \<lparr>name = ''P'', location = ''NY'', topics = [],
                        startTime = 1800003600, endTime = 1800010800, totalSlots = 1,
                        availableSlots = 0\<rparr>),
                     (''Q'', \<lparr>name = ''Q'', location = ''NY'', topics = [],
                        startTime = 1800010800, endTime = 1800018000, totalSlots = 1,
                        availableSlots = 0\<rparr>)],
      users = [(''u'', \<lparr>userId = ''u'', interestedTopics = [],
                  bookingStatuses = [(''u_P_1800000000'', CONFIRMED),
                                     (''u_Q_1800000001'', CONFIRMED)]\<rparr>)],
      bookings = [(''u_P_1800000000'', \<lparr>bookingId = ''u_P_1800000000'', bookingUserId = ''u'',
                     conferenceName = ''P'', status = CONFIRMED, confirmationDeadline = 0\<rparr>),
                  (''u_Q_1800000001'', \<lparr>bookingId = ''u_Q_1800000001'', bookingUserId = ''u'',
                     conferenceName = ''Q'', status = CONFIRMED, confirmationDeadline = 0\<rparr>)],
      waitlists = []\<rparr>"
  by (simp add: back_to_back_calls_def model_defs)


lemma late_start_state:
  "run init late_start_calls =
     \<lparr>conferences = [(''C'', \<lparr>name = ''C'', location = ''NY'', topics = [],
         startTime = 1800020000, endTime = 1800030000, totalSlots = 1, availableSlots = 1\<rparr>)],
      users = [(''A'', \<lparr>userId = ''A'', interestedTopics = [], bookingStatuses = []\<rparr>),
               (''B'', \<lparr>userId = ''B'', interestedTopics = [],
                  bookingStatuses = [(''B_C_1800000001'', WAITLISTED)]\<rparr>),
               (''D'', \<lparr>userId = ''D'', interestedTopics = [],
                  bookingStatuses = [(''D_C_1800000002'', WAITLISTED)]\<rparr>)],
      bookings = [(''A_C_1800000000'', \<lparr>bookingId = ''A_C_1800000000'', bookingUserId = ''A'',
                     conferenceName = ''C'', status = CANCELED, confirmationDeadline = 0\<rparr>),
                  (''B_C_1800000001'', \<lparr>bookingId = ''B_C_1800000001'', bookingUserId = ''B'',
                     conferenceName = ''C'', status = WAITLISTED,
                     confirmationDeadline = 1800003603\<rparr>),
                  (''D_C_1800000002'', \<lparr>bookingId = ''D_C_1800000002'', bookingUserId = ''D'',
                     conferenceName = ''C'', status = WAITLISTED, confirmationDeadline = 0\<rparr>)],
      waitlists = [(''C'', [''B_C_1800000001'', ''D_C_1800000002''])]\<rparr>"
  by (simp add: late_start_calls_def model_defs)

section \<open>The association lists as maps\<close>

lemma map_of_map_assign [simp]: "map_of (map_assign k v m) = (map_of m)(k \<mapsto> v)"
  by (induction m) (auto simp: fun_eq_iff)

lemma set_map_assign: "x \<in> set (map_assign k v m) \<Longrightarrow> x = (k, v) \<or> x \<in> set m"
  by (induction m) (auto split: if_splits)

lemma keys_map_assign [simp]: "fst ` set (map_assign k v m) = insert k (fst ` set m)"
  using dom_map_of_conv_image_fst [of "map_assign k v m"] dom_map_of_conv_image_fst [of m]
  by simp

lemma map_of_map_emplace:
  "map_of (map_emplace k v m) k' = (if k' = k \<and> map_of m k = None then Some v else map_of m k')"
  by (auto simp: map_emplace_def split: option.splits)

lemma map_of_map_modify [simp]:
  "map_of (map_modify k f m) k' = (if k' = k then map_option f (map_of m k) else map_of m k')"
  by (induction m) (auto simp: map_modify_def)

lemma map_of_map_erase [simp]:
  "map_of (map_erase k m) k' = (if k' = k then None else map_of m k')"
  by (induction m) (auto simp: map_erase_def)

lemma set_map_erase [simp]: "(k', v) \<in> set (map_erase k m) \<longleftrightarrow> k' \<noteq> k \<and> (k', v) \<in> set m"
  by (auto simp: map_erase_def)

lemma queue_of_map_assign [simp]:
  "queue_of c (map_assign c' q w) = (if c = c' then q else queue_of c w)"
  by (simp add: queue_of_def)

lemma queue_of_map_index [simp]: "queue_of c (map_index c' w) = queue_of c w"
  by (auto simp: queue_of_def map_index_def split: option.splits)

lemma owned_by_modify [simp]:
  "owned_by (map_modify k (setStatus st) bs) uid k' = owned_by bs uid k'"
  by (cases "map_of bs k") (auto simp: owned_by_def setStatus_def)

section \<open>The loops over waitlists and ledgers\<close>

lemma evict_queue_spec:
  "\<forall>k\<in>set q. map_of bs k \<noteq> None \<Longrightarrow>
   \<exists>bs'. evict_queue uid q acc bs = Inr (acc @ filter (\<lambda>k. \<not> owned_by bs uid k) q, bs') \<and>
     (\<forall>k. map_of bs' k =
        (if owned_by bs uid k \<and> k \<in> set q then map_option (setStatus CANCELED) (map_of bs k)
         else map_of bs k))"
proof (induction q arbitrary: acc bs)
  case Nil
  then show ?case by simp
next
  case (Cons k q)
  then obtain b where b: "map_of bs k = Some b" by auto
  show ?case
  proof (cases "bookingUserId b = uid")
    case False
    with b have no: "\<not> owned_by bs uid k" by (simp add: owned_by_def)
    from Cons.prems have "\<forall>k\<in>set q. map_of bs k \<noteq> None" by simp
    from Cons.IH [OF this, of "acc @ [k]"] no b False show ?thesis by auto
  next
    case True
    with b have yes: "owned_by bs uid k" by (simp add: owned_by_def)
    let ?bs1 = "map_modify k (setStatus CANCELED) bs"
    from Cons.prems have "\<forall>k'\<in>set q. map_of ?bs1 k' \<noteq> None" by simp
    from Cons.IH [OF this, of acc] obtain bs' where
      r: "evict_queue uid q acc ?bs1 = Inr (acc @ filter (\<lambda>k. \<not> owned_by bs uid k) q, bs')" and
      m: "\<forall>k'. map_of bs' k' =
        (if owned_by bs uid k' \<and> k' \<in> set q then map_option (setStatus CANCELED) (map_of ?bs1 k')
         else map_of ?bs1 k')"
      by auto
    have "evict_queue uid (k # q) acc bs =
        Inr (acc @ filter (\<lambda>k. \<not> owned_by bs uid k) (k # q), bs')"
      using b True r yes by simp
    moreover have "\<forall>k'. map_of bs' k' =
        (if owned_by bs uid k' \<and> k' \<in> set (k # q)
         then map_option (setStatus CANCELED) (map_of bs k') else map_of bs k')"
      using m b yes by (auto simp: setStatus_def)
    ultimately show ?thesis by blast
  qed
qed

lemma cancel_queue_spec:
  "\<forall>k\<in>set q. map_of bs k \<noteq> None \<Longrightarrow>
   \<exists>bs'. cancel_queue q bs = Inr bs' \<and>
     (\<forall>k. map_of bs' k =
        (if k \<in> set q then map_option (setStatus CANCELED) (map_of bs k) else map_of bs k))"
proof (induction q arbitrary: bs)
  case Nil
  then show ?case by simp
next
  case (Cons k q)
  then obtain b where b: "map_of bs k = Some b" by auto
  let ?bs1 = "map_modify k (setStatus CANCELED) bs"
  from Cons.prems have "\<forall>k'\<in>set q. map_of ?bs1 k' \<noteq> None" by simp
  from Cons.IH [OF this] obtain bs' where
    r: "cancel_queue q ?bs1 = Inr bs'" and
    m: "\<forall>k'. map_of bs' k' =
      (if k' \<in> set q then map_option (setStatus CANCELED) (map_of ?bs1 k') else map_of ?bs1 k')"
    by auto
  have "cancel_queue (k # q) bs = Inr bs'" using b r by simp
  moreover have "\<forall>k'. map_of bs' k' =
      (if k' \<in> set (k # q) then map_option (setStatus CANCELED) (map_of bs k') else map_of bs k')"
    using m b by (auto simp: setStatus_def)
  ultimately show ?case by blast
qed

lemma cancel_twice [simp]:
  "map_option (setStatus CANCELED) (map_option (setStatus CANCELED) x) =
   map_option (setStatus CANCELED) x"
  by (cases x) (simp_all add: setStatus_def)

lemma owner_cancel [simp]:
  "map_option bookingUserId (map_option (setStatus st) x) = map_option bookingUserId x"
  by (cases x) (simp_all add: setStatus_def)

lemma evict_confs_spec:
  "queued_known s \<Longrightarrow> \<exists>s'. evict_confs uid cns s = (Inr (), s') \<and> evicted uid cns s s'"
proof (induction cns arbitrary: s)
  case Nil
  then show ?case by (simp add: evicted_def)
next
  case (Cons cn cns)
  let ?w = "map_index cn (waitlists s)"
  let ?q = "queue_of cn (waitlists s)"
  let ?own = "owned_by (bookings s) uid"
  from Cons.prems have known: "\<forall>k\<in>set ?q. map_of (bookings s) k \<noteq> None"
    by (simp add: queued_known_def)
  from evict_queue_spec [OF known, of uid "[]"] obtain bs' where
    r: "evict_queue uid ?q [] (bookings s) = Inr (filter (\<lambda>k. \<not> ?own k) ?q, bs')" and
    m: "\<And>k. map_of bs' k =
          (if ?own k \<and> k \<in> set ?q
           then map_option (setStatus CANCELED) (map_of (bookings s) k)
           else map_of (bookings s) k)"
    by auto
  let ?s1 = "s\<lparr>bookings := bs', waitlists := map_assign cn (filter (\<lambda>k. \<not> ?own k) ?q) ?w\<rparr>"
  have own: "owned_by bs' uid = ?own"
    by (rule ext) (auto simp: owned_by_def m setStatus_def)
  have q1: "queue_of c (waitlists ?s1) =
      (if c = cn then filter (\<lambda>k. \<not> ?own k) ?q else queue_of c (waitlists s))" for c
    by simp
  have "queued_known ?s1"
    unfolding queued_known_def
  proof (intro allI impI)
    fix c k assume "k \<in> set (queue_of c (waitlists ?s1))"
    then have "k \<in> set (queue_of c (waitlists s))"
      unfolding q1 by (simp split: if_splits)
    with Cons.prems have "map_of (bookings s) k \<noteq> None" by (simp add: queued_known_def)
    then show "map_of (bookings ?s1) k \<noteq> None" by (simp add: m)
  qed
  from Cons.IH [OF this] obtain s' where
    r': "evict_confs uid cns ?s1 = (Inr (), s')" and e: "evicted uid cns ?s1 s'"
    by blast
  have run: "evict_confs uid (cn # cns) s = (Inr (), s')"
    by (simp only: evict_confs.simps Let_def queue_of_map_index r sum.case prod.case r')
  have b1: "bookings ?s1 = bs'" by simp
  note e' = e [unfolded evicted_def b1 own]
  from e' have e1: "conferences s' = conferences s" "users s' = users s"
    by simp_all
  from e' have e2: "queue_of c (waitlists s') =
      (if c \<in> set cns then filter (\<lambda>k. \<not> ?own k) (queue_of c (waitlists ?s1))
       else queue_of c (waitlists ?s1))" for c
    by blast
  from e' have e3: "map_of (bookings s') k =
      (if ?own k \<and> (\<exists>c\<in>set cns. k \<in> set (queue_of c (waitlists ?s1)))
       then map_option (setStatus CANCELED) (map_of bs' k) else map_of bs' k)" for k
    by blast
  have g2: "queue_of c (waitlists s') =
      (if c \<in> set (cn # cns) then filter (\<lambda>k. \<not> ?own k) (queue_of c (waitlists s))
       else queue_of c (waitlists s))" for c
    unfolding e2 q1 by simp
  have g3: "map_of (bookings s') k =
      (if ?own k \<and> (\<exists>c\<in>set (cn # cns). k \<in> set (queue_of c (waitlists s)))
       then map_option (setStatus CANCELED) (map_of (bookings s) k) else map_of (bookings s) k)"
    for k
  proof (cases "?own k")
    case False
    then show ?thesis by (simp add: e3 m)
  next
    case True
    have mem: "(\<exists>c\<in>set cns. k \<in> set (queue_of c (waitlists ?s1))) \<longleftrightarrow>
        (\<exists>c\<in>set cns. c \<noteq> cn \<and> k \<in> set (queue_of c (waitlists s)))"
      unfolding q1 using True by auto
    show ?thesis
    proof (cases "k \<in> set ?q")
      case True
      then show ?thesis unfolding e3 mem by (simp add: m)
    next
      case False
      then have "(\<exists>c\<in>set cns. c \<noteq> cn \<and> k \<in> set (queue_of c (waitlists s))) \<longleftrightarrow>
          (\<exists>c\<in>set (cn # cns). k \<in> set (queue_of c (waitlists s)))"
        by auto
      then show ?thesis unfolding e3 mem using False by (auto simp: m)
    qed
  qed
  have "evicted uid (cn # cns) s s'"
    unfolding evicted_def using e1 g2 g3 by blast
  with run show ?case by blast
qed

lemma keys_map_modify [simp]: "map fst (map_modify k f m) = map fst m"
  by (induction m) (auto simp: map_modify_def)

lemma distinct_map_assign:
  "map_of m k = None \<Longrightarrow> distinct (map fst m) \<Longrightarrow> distinct (map fst (map_assign k v m))"
proof (induction m)
  case Nil
  then show ?case by simp
next
  case (Cons p m)
  obtain k' v' where p: "p = (k', v')" by (cases p)
  from Cons.prems p have k: "k \<noteq> k'" "map_of m k = None" by (auto split: if_splits)
  then have "k \<notin> fst ` set m" by (simp add: map_of_eq_None_iff)
  with Cons p k show ?case by (auto split: if_splits)
qed

lemma distinct_map_emplace:
  "distinct (map fst m) \<Longrightarrow> distinct (map fst (map_emplace k v m))"
  by (auto simp: map_emplace_def distinct_map_assign split: option.splits)

lemma evict_queue_keys:
  "(case evict_queue uid q acc bs of Inl (r, bs') \<Rightarrow> map fst bs' | Inr (a, bs') \<Rightarrow> map fst bs') =
   map fst bs"
  by (induction q arbitrary: acc bs) (auto split: option.splits)

lemma evict_confs_keys:
  "map fst (bookings (snd (evict_confs uid cns s))) = map fst (bookings s)"
proof (induction cns arbitrary: s)
  case Nil
  then show ?case by simp
next
  case (Cons cn cns)
  let ?w = "map_index cn (waitlists s)"
  show ?case
  proof (cases "evict_queue uid (queue_of cn ?w) [] (bookings s)")
    case (Inl p)
    with evict_queue_keys [of uid "queue_of cn ?w" "[]" "bookings s"] show ?thesis
      by (cases p) (simp add: Let_def)
  next
    case (Inr p)
    obtain a bs' where p: "p = (a, bs')" by (cases p)
    with Inr evict_queue_keys [of uid "queue_of cn ?w" "[]" "bookings s"]
    have k: "map fst bs' = map fst (bookings s)" by simp
    from Inr p have "evict_confs uid (cn # cns) s =
        evict_confs uid cns (s\<lparr>bookings := bs', waitlists := map_assign cn a ?w\<rparr>)"
      by (simp add: Let_def)
    with Cons.IH [of "s\<lparr>bookings := bs', waitlists := map_assign cn a ?w\<rparr>"] k
    show ?thesis by simp
  qed
qed

lemma removeFromOverlappingWaitlists_keys:
  "map fst (bookings (snd (removeFromOverlappingWaitlists uid c s))) = map fst (bookings s)"
  by (simp add: removeFromOverlappingWaitlists_def evict_confs_keys)

lemma cancel_queue_keys:
  "(case cancel_queue q bs of Inl (r, bs') \<Rightarrow> map fst bs' | Inr bs' \<Rightarrow> map fst bs') = map fst bs"
  by (induction q arbitrary: bs) (auto split: option.splits)

lemma cancelAllWaitlistedBookings_keys:
  "map fst (bookings (snd (cancelAllWaitlistedBookings cn s))) = map fst (bookings s)"
  using cancel_queue_keys [of "queue_of cn (map_index cn (waitlists s))" "bookings s"]
  by (auto simp: cancelAllWaitlistedBookings_def Let_def split: sum.splits prod.splits)

lemma processWaitlist_keys:
  "map fst (bookings (snd (processWaitlist cn t s))) = map fst (bookings s)"
  by (auto simp: processWaitlist_def Let_def split: list.splits option.splits)

lemma conflict_loop_total:
  "\<forall>k\<in>set ks. \<exists>b. map_of (bookings s) k = Some b \<and>
      map_of (conferences s) (conferenceName b) \<noteq> None \<Longrightarrow>
   \<exists>r. conflict_loop ks nc s = Inr r"
  by (induction ks) auto

lemma conflict_loop_iff:
  "conflict_loop ks nc s = Inr r \<Longrightarrow>
   r \<longleftrightarrow> (\<exists>k\<in>set ks. \<exists>b ec. map_of (bookings s) k = Some b \<and> status b = CONFIRMED \<and>
          map_of (conferences s) (conferenceName b) = Some ec \<and>
          isTimeOverlapping ec (startTime nc) (endTime nc))"
proof (induction ks)
  case Nil
  then show ?case by simp
next
  case (Cons k ks)
  from Cons.prems obtain b where b: "map_of (bookings s) k = Some b"
    by (auto split: option.splits)
  show ?case
  proof (cases "status b = CONFIRMED")
    case False
    with b Cons show ?thesis by (auto split: if_splits)
  next
    case True
    with b Cons.prems obtain ec where ec: "map_of (conferences s) (conferenceName b) = Some ec"
      by (auto split: option.splits)
    show ?thesis
    proof (cases "isTimeOverlapping ec (startTime nc) (endTime nc)")
      case True
      with b ec \<open>status b = CONFIRMED\<close> Cons.prems show ?thesis by auto
    next
      case False
      with b ec \<open>status b = CONFIRMED\<close> Cons show ?thesis by auto
    qed
  qed
qed

lemma active_all:
  "\<forall>(k, st)\<in>set l. st \<noteq> CANCELED \<Longrightarrow> filter (\<lambda>(bid, st). st \<noteq> CANCELED) l = l"
  by (induction l) auto

lemma getActiveBookings_ok:
  "ledger_ok s \<Longrightarrow> map_of (users s) uid = Some u \<Longrightarrow>
   set (getActiveBookings u) = fst ` set (bookingStatuses u)"
proof -
  assume l: "ledger_ok s" and u: "map_of (users s) uid = Some u"
  then have "\<forall>(k, st)\<in>set (bookingStatuses u). st \<noteq> CANCELED"
    unfolding ledger_ok_def by blast
  from active_all [OF this] show ?thesis by (simp add: getActiveBookings_def)
qed

lemma hasConflictingBooking_ok:
  assumes "ledger_ok s" "booking_refs s" "map_of (users s) uid = Some u"
  shows "hasConflictingBooking uid nc s =
     Inr (\<exists>k\<in>fst ` set (bookingStatuses u). \<exists>b ec. map_of (bookings s) k = Some b \<and>
          status b = CONFIRMED \<and> map_of (conferences s) (conferenceName b) = Some ec \<and>
          isTimeOverlapping ec (startTime nc) (endTime nc))"
proof -
  have act: "set (getActiveBookings u) = fst ` set (bookingStatuses u)"
    using getActiveBookings_ok assms by blast
  have "\<forall>k\<in>set (getActiveBookings u). \<exists>b. map_of (bookings s) k = Some b \<and>
      map_of (conferences s) (conferenceName b) \<noteq> None"
  proof
    fix k assume "k \<in> set (getActiveBookings u)"
    then obtain st where "(k, st) \<in> set (bookingStatuses u)" unfolding act by auto
    with assms obtain b where b: "map_of (bookings s) k = Some b"
      unfolding ledger_ok_def by blast
    with assms(2) have "map_of (conferences s) (conferenceName b) \<noteq> None"
      unfolding booking_refs_def by blast
    with b show "\<exists>b. map_of (bookings s) k = Some b \<and>
      map_of (conferences s) (conferenceName b) \<noteq> None" by blast
  qed
  from conflict_loop_total [OF this] obtain r where r: "conflict_loop (getActiveBookings u) nc s = Inr r"
    by blast
  from conflict_loop_iff [OF r] r assms(3) show ?thesis
    unfolding act by (simp add: hasConflictingBooking_def)
qed

lemma processWaitlist_ok:
  "queued_known s \<Longrightarrow>
   processWaitlist cn t s =
     (Inr (), s\<lparr>waitlists := map_index cn (waitlists s),
               bookings := (case queue_of cn (waitlists s) of
                   [] \<Rightarrow> bookings s
                 | k # _ \<Rightarrow> map_modify k (setConfirmationDeadline (t + 3600)) (bookings s))\<rparr>)"
proof (cases "queue_of cn (waitlists s)")
  case Nil
  then show ?thesis by (simp add: processWaitlist_def Let_def)
next
  case (Cons k q)
  assume "queued_known s"
  with Cons obtain b where "map_of (bookings s) k = Some b"
    unfolding queued_known_def by (metis list.set_intros(1) not_None_eq)
  with Cons show ?thesis by (simp add: processWaitlist_def Let_def)
qed

lemma cancelAllWaitlistedBookings_ok:
  assumes "queued_known s"
  shows "\<exists>bs'. cancelAllWaitlistedBookings cn s =
       (Inr (), s\<lparr>bookings := bs', waitlists := map_assign cn [] (map_index cn (waitlists s))\<rparr>) \<and>
     (\<forall>k. map_of bs' k =
        (if k \<in> set (queue_of cn (waitlists s))
         then map_option (setStatus CANCELED) (map_of (bookings s) k)
         else map_of (bookings s) k))"
proof -
  from assms have "\<forall>k\<in>set (queue_of cn (waitlists s)). map_of (bookings s) k \<noteq> None"
    by (simp add: queued_known_def)
  from cancel_queue_spec [OF this] obtain bs' where
    "cancel_queue (queue_of cn (waitlists s)) (bookings s) = Inr bs'"
    "\<forall>k. map_of bs' k =
        (if k \<in> set (queue_of cn (waitlists s))
         then map_option (setStatus CANCELED) (map_of (bookings s) k)
         else map_of (bookings s) k)"
    by blast
  then show ?thesis
    by (intro exI [of _ bs']) (simp add: cancelAllWaitlistedBookings_def Let_def)
qed

lemma removeFromOverlappingWaitlists_ok:
  assumes "queued_known s"
  shows "\<exists>cns s'. name bookedConf \<notin> set cns \<and>
     removeFromOverlappingWaitlists uid bookedConf s = (Inr (), s') \<and> evicted uid cns s s'"
proof -
  let ?cns = "map fst (filter (\<lambda>(confName, conf). confName \<noteq> name bookedConf \<and>
            isTimeOverlapping conf (startTime bookedConf) (endTime bookedConf)) (conferences s))"
  have "name bookedConf \<notin> set ?cns" by auto
  moreover from evict_confs_spec [OF assms, of uid ?cns] obtain s' where
    "evict_confs uid ?cns s = (Inr (), s')" "evicted uid ?cns s s'" by blast
  ultimately show ?thesis unfolding removeFromOverlappingWaitlists_def by blast
qed

section \<open>The invariant\<close>

lemma evicted_booking:
  assumes "evicted uid cns s s'" "map_of (bookings s') k = Some b'"
  obtains b where "map_of (bookings s) k = Some b" "bookingUserId b' = bookingUserId b"
    "conferenceName b' = conferenceName b" "status b' = status b \<or> status b' = CANCELED"
    "status b' \<noteq> CANCELED \<Longrightarrow> b' = b"
proof -
  from assms(1) have m: "map_of (bookings s') k =
         (if owned_by (bookings s) uid k \<and> (\<exists>c\<in>set cns. k \<in> set (queue_of c (waitlists s)))
          then map_option (setStatus CANCELED) (map_of (bookings s) k)
          else map_of (bookings s) k)"
    unfolding evicted_def by blast
  show thesis
  proof (cases "owned_by (bookings s) uid k \<and> (\<exists>c\<in>set cns. k \<in> set (queue_of c (waitlists s)))")
    case True
    with m assms(2) obtain b where "map_of (bookings s) k = Some b" "b' = setStatus CANCELED b"
      by (cases "map_of (bookings s) k") auto
    then show thesis using that [of b] by (simp add: setStatus_def)
  next
    case False
    with m assms(2) have "map_of (bookings s) k = Some b'" by simp
    then show thesis using that [of b'] by simp
  qed
qed

lemma evicted_known:
  "evicted uid cns s s' \<Longrightarrow> map_of (bookings s') k \<noteq> None \<longleftrightarrow> map_of (bookings s) k \<noteq> None"
  unfolding evicted_def by (cases "map_of (bookings s) k") auto

lemma evicted_queue_subset:
  "evicted uid cns s s' \<Longrightarrow> k \<in> set (queue_of c (waitlists s')) \<Longrightarrow>
   k \<in> set (queue_of c (waitlists s))"
  unfolding evicted_def by (metis filter_is_subset subsetD)

lemma evicted_still_queued:
  assumes "evicted uid cns s s'" "map_of (bookings s') k = Some b'" "status b' \<noteq> CANCELED"
    "k \<in> set (queue_of c (waitlists s))"
  shows "k \<in> set (queue_of c (waitlists s'))"
proof (cases "c \<in> set cns")
  case False
  with assms(1,4) show ?thesis unfolding evicted_def by simp
next
  case True
  have "\<not> owned_by (bookings s) uid k"
  proof
    assume "owned_by (bookings s) uid k"
    with True assms(1,4) have "map_of (bookings s') k = map_option (setStatus CANCELED) (map_of (bookings s) k)"
      unfolding evicted_def by auto
    with assms(2,3) show False by (auto simp: setStatus_def)
  qed
  with True assms(1,4) show ?thesis unfolding evicted_def by simp
qed

lemma consistent_evicted:
  assumes wf: "consistent s" and e: "evicted uid cns s s'"
  shows "consistent s'"
proof -
  from e have cu: "conferences s' = conferences s" "users s' = users s"
    unfolding evicted_def by simp_all
  have 1: "names_ok s'" using wf cu by (simp add: consistent_def names_ok_def)
  have 2: "queued_known s'"
    using wf evicted_queue_subset [OF e] evicted_known [OF e]
    unfolding consistent_def queued_known_def by blast
  have 3: "booking_refs s'"
    unfolding booking_refs_def
  proof (intro allI impI)
    fix k b' assume "map_of (bookings s') k = Some b'"
    from evicted_booking [OF e this] obtain b where "map_of (bookings s) k = Some b"
      "bookingUserId b' = bookingUserId b" "conferenceName b' = conferenceName b" by metis
    with wf show "map_of (conferences s') (conferenceName b') \<noteq> None \<and>
        map_of (users s') (bookingUserId b') \<noteq> None"
      unfolding consistent_def booking_refs_def cu by metis
  qed
  have 4: "ledger_ok s'"
    using wf evicted_known [OF e] unfolding consistent_def ledger_ok_def cu by blast
  have 5: "ledger_covers s'"
    unfolding ledger_covers_def
  proof (intro allI impI, elim conjE)
    fix k b' assume b': "map_of (bookings s') k = Some b'" and nc: "status b' \<noteq> CANCELED"
    from evicted_booking [OF e b'] nc have "map_of (bookings s) k = Some b'" by metis
    with wf nc show "\<exists>u. map_of (users s') (bookingUserId b') = Some u \<and>
        k \<in> fst ` set (bookingStatuses u)"
      unfolding consistent_def ledger_covers_def cu by blast
  qed
  have 6: "waiting_queued s'"
    unfolding waiting_queued_def
  proof (intro allI impI, elim conjE)
    fix k b' assume b': "map_of (bookings s') k = Some b'" and w: "status b' = WAITLISTED"
    then have nc: "status b' \<noteq> CANCELED" by simp
    from evicted_booking [OF e b'] nc have "map_of (bookings s) k = Some b'" by metis
    with wf w have "k \<in> set (queue_of (conferenceName b') (waitlists s))"
      unfolding consistent_def waiting_queued_def by blast
    from evicted_still_queued [OF e b' nc this]
    show "k \<in> set (queue_of (conferenceName b') (waitlists s'))" .
  qed
  have 7: "no_overlap s'"
    unfolding no_overlap_def
  proof (intro allI impI, elim conjE)
    fix k1 k2 b1 b2 c1 c2
    assume a: "k1 \<noteq> k2" "map_of (bookings s') k1 = Some b1" "map_of (bookings s') k2 = Some b2"
      "bookingUserId b1 = bookingUserId b2" "status b1 = CONFIRMED" "status b2 = CONFIRMED"
      "map_of (conferences s') (conferenceName b1) = Some c1"
      "map_of (conferences s') (conferenceName b2) = Some c2"
    from evicted_booking [OF e a(2)] a(5) have "map_of (bookings s) k1 = Some b1"
      by (metis BookingStatus.distinct(3))
    moreover from evicted_booking [OF e a(3)] a(6) have "map_of (bookings s) k2 = Some b2"
      by (metis BookingStatus.distinct(3))
    ultimately show "\<not> isTimeOverlapping c1 (startTime c2) (endTime c2)"
      using wf a unfolding consistent_def no_overlap_def cu by blast
  qed
  from 1 2 3 4 5 6 7 show ?thesis by (simp add: consistent_def)
qed

lemma window_eq:
  "window c' = window c \<longleftrightarrow> name c' = name c \<and> startTime c' = startTime c \<and> endTime c' = endTime c"
  by (auto simp: window_def)

lemma overlap_window:
  "window c1' = window c1 \<Longrightarrow> window c2' = window c2 \<Longrightarrow>
   isTimeOverlapping c1' (startTime c2') (endTime c2') =
   isTimeOverlapping c1 (startTime c2) (endTime c2)"
  by (simp add: window_eq isTimeOverlapping_def)

lemma consistent_step:
  assumes wf: "consistent s"
    and A1: "\<And>cn c. map_of (conferences s) cn = Some c \<Longrightarrow>
                \<exists>c'. map_of (conferences s') cn = Some c' \<and> window c' = window c"
    and A1n: "\<And>cn c'. map_of (conferences s') cn = Some c' \<Longrightarrow> name c' = cn"
    and A2: "\<And>uid. map_of (users s) uid \<noteq> None \<Longrightarrow> map_of (users s') uid \<noteq> None"
    and A2': "\<And>uid u' k st. map_of (users s') uid = Some u' \<Longrightarrow>
                (k, st) \<in> set (bookingStatuses u') \<Longrightarrow>
                \<exists>u. map_of (users s) uid = Some u \<and> (k, st) \<in> set (bookingStatuses u)"
    and A3: "\<And>k b'. map_of (bookings s') k = Some b' \<Longrightarrow>
                \<exists>b. map_of (bookings s) k = Some b \<and> bookingUserId b' = bookingUserId b \<and>
                    conferenceName b' = conferenceName b \<and>
                    (status b' = status b \<or> status b' = CANCELED)"
    and A3': "\<And>k. map_of (bookings s) k \<noteq> None \<Longrightarrow> map_of (bookings s') k \<noteq> None"
    and A4: "\<And>c. set (queue_of c (waitlists s')) \<subseteq> set (queue_of c (waitlists s))"
    and A5: "\<And>k b' u u'. map_of (bookings s') k = Some b' \<Longrightarrow> status b' \<noteq> CANCELED \<Longrightarrow>
                map_of (users s) (bookingUserId b') = Some u \<Longrightarrow>
                map_of (users s') (bookingUserId b') = Some u' \<Longrightarrow>
                k \<in> fst ` set (bookingStatuses u) \<Longrightarrow> k \<in> fst ` set (bookingStatuses u')"
    and A6: "\<And>k b'. map_of (bookings s') k = Some b' \<Longrightarrow> status b' = WAITLISTED \<Longrightarrow>
                k \<in> set (queue_of (conferenceName b') (waitlists s)) \<Longrightarrow>
                k \<in> set (queue_of (conferenceName b') (waitlists s'))"
  shows "consistent s'"
proof -
  from wf have inv: "names_ok s" "queued_known s" "booking_refs s" "ledger_ok s" "ledger_covers s"
    "waiting_queued s" "no_overlap s" by (simp_all add: consistent_def)
  have 1: "names_ok s'"
    unfolding names_ok_def using A1n by blast
  have 2: "queued_known s'"
    using inv(2) A4 A3' unfolding queued_known_def by blast
  have 3: "booking_refs s'"
    unfolding booking_refs_def
  proof (intro allI impI)
    fix k b' assume "map_of (bookings s') k = Some b'"
    from A3 [OF this] obtain b where b: "map_of (bookings s) k = Some b"
      "bookingUserId b' = bookingUserId b" "conferenceName b' = conferenceName b" by blast
    with inv(3) have r: "map_of (conferences s) (conferenceName b') \<noteq> None"
      "map_of (users s) (bookingUserId b') \<noteq> None"
      unfolding booking_refs_def by metis+
    from r(1) obtain c where "map_of (conferences s) (conferenceName b') = Some c" by blast
    from A1 [OF this] have "map_of (conferences s') (conferenceName b') \<noteq> None" by auto
    with A2 [OF r(2)]
    show "map_of (conferences s') (conferenceName b') \<noteq> None \<and>
        map_of (users s') (bookingUserId b') \<noteq> None" by simp
  qed
  have 4: "ledger_ok s'"
    unfolding ledger_ok_def
  proof (intro allI impI, elim conjE)
    fix uid u' k st
    assume u': "map_of (users s') uid = Some u'" and m: "(k, st) \<in> set (bookingStatuses u')"
    from A2' [OF u' m] obtain u where "map_of (users s) uid = Some u"
      "(k, st) \<in> set (bookingStatuses u)" by blast
    with inv(4) have "st \<noteq> CANCELED" "map_of (bookings s) k \<noteq> None"
      unfolding ledger_ok_def by blast+
    then show "st \<noteq> CANCELED \<and> map_of (bookings s') k \<noteq> None" using A3' by blast
  qed
  have 5: "ledger_covers s'"
    unfolding ledger_covers_def
  proof (intro allI impI, elim conjE)
    fix k b' assume b': "map_of (bookings s') k = Some b'" and nc: "status b' \<noteq> CANCELED"
    from A3 [OF b'] nc obtain b where b: "map_of (bookings s) k = Some b"
      "bookingUserId b' = bookingUserId b" "status b \<noteq> CANCELED" by metis
    with inv(5) obtain u where u: "map_of (users s) (bookingUserId b') = Some u"
      "k \<in> fst ` set (bookingStatuses u)"
      unfolding ledger_covers_def by metis
    from u(1) A2 [of "bookingUserId b'"] obtain u' where
      u': "map_of (users s') (bookingUserId b') = Some u'" by auto
    from A5 [OF b' nc u(1) u' u(2)] u'
    show "\<exists>u. map_of (users s') (bookingUserId b') = Some u \<and> k \<in> fst ` set (bookingStatuses u)"
      by blast
  qed
  have 6: "waiting_queued s'"
    unfolding waiting_queued_def
  proof (intro allI impI, elim conjE)
    fix k b' assume b': "map_of (bookings s') k = Some b'" and w: "status b' = WAITLISTED"
    from A3 [OF b'] w obtain b where b: "map_of (bookings s) k = Some b"
      "conferenceName b' = conferenceName b" "status b = WAITLISTED"
      by (metis BookingStatus.distinct(5))
    with inv(6) have "k \<in> set (queue_of (conferenceName b') (waitlists s))"
      unfolding waiting_queued_def by metis
    from A6 [OF b' w this] show "k \<in> set (queue_of (conferenceName b') (waitlists s'))" .
  qed
  have 7: "no_overlap s'"
    unfolding no_overlap_def
  proof (intro allI impI, elim conjE)
    fix k1 k2 b1' b2' c1' c2'
    assume a: "k1 \<noteq> k2" "map_of (bookings s') k1 = Some b1'" "map_of (bookings s') k2 = Some b2'"
      "bookingUserId b1' = bookingUserId b2'" "status b1' = CONFIRMED" "status b2' = CONFIRMED"
      "map_of (conferences s') (conferenceName b1') = Some c1'"
      "map_of (conferences s') (conferenceName b2') = Some c2'"
    from A3 [OF a(2)] a(5) obtain b1 where b1: "map_of (bookings s) k1 = Some b1"
      "bookingUserId b1' = bookingUserId b1" "conferenceName b1' = conferenceName b1"
      "status b1 = CONFIRMED" by (metis BookingStatus.distinct(3))
    from A3 [OF a(3)] a(6) obtain b2 where b2: "map_of (bookings s) k2 = Some b2"
      "bookingUserId b2' = bookingUserId b2" "conferenceName b2' = conferenceName b2"
      "status b2 = CONFIRMED" by (metis BookingStatus.distinct(3))
    from inv(3) b1(1) obtain c1 where c1: "map_of (conferences s) (conferenceName b1) = Some c1"
      unfolding booking_refs_def by blast
    from inv(3) b2(1) obtain c2 where c2: "map_of (conferences s) (conferenceName b2) = Some c2"
      unfolding booking_refs_def by blast
    from A1 [OF c1] a(7) b1(3) have w1: "window c1' = window c1" by simp
    from A1 [OF c2] a(8) b2(3) have w2: "window c2' = window c2" by simp
    from inv(7) have "\<not> isTimeOverlapping c1 (startTime c2) (endTime c2)"
      unfolding no_overlap_def using a(1,4) b1 b2 c1 c2 by metis
    then show "\<not> isTimeOverlapping c1' (startTime c2') (endTime c2')"
      using overlap_window [OF w1 w2] by simp
  qed
  from 1 2 3 4 5 6 7 show ?thesis by (simp add: consistent_def)
qed

lemma hasConflictingBooking_holds:
  "consistent s \<Longrightarrow> map_of (users s) uid = Some u \<Longrightarrow>
   hasConflictingBooking uid nc s = Inr (holdsOverlapping u nc s)"
  unfolding holdsOverlapping_def consistent_def by (intro hasConflictingBooking_ok) simp_all


lemma book_confirmed:
  assumes wf: "consistent s" and u: "map_of (users s) uid = Some u"
    and c: "map_of (conferences s) cn = Some c" and ns: "\<not> hasStarted t1 c"
    and nd: "find (\<lambda>(bid, b). bookingUserId b = uid \<and> conferenceName b = cn \<and>
                   status b \<noteq> CANCELED) (bookings s) = None"
    and nh: "\<not> holdsOverlapping u c s" and av: "availableSlots c > 0"
  shows "\<exists>cns s2. cn \<notin> set cns \<and>
     evicted uid cns (s\<lparr>conferences :=
        map_modify cn (\<lambda>_. c\<lparr>availableSlots := availableSlots c - 1\<rparr>) (conferences s)\<rparr>) s2 \<and>
     map fst (bookings s2) = map fst (bookings s) \<and>
     bookConference uid cn t1 t2 junk s =
       (Inr (bookingId (newBooking uid cn t2 junk)),
        s2\<lparr>bookings := map_emplace (bookingId (newBooking uid cn t2 junk))
                          (setStatus CONFIRMED (newBooking uid cn t2 junk)) (bookings s2),
            users := map_modify uid (addBooking (bookingId (newBooking uid cn t2 junk)) CONFIRMED)
                       (users s2)\<rparr>)"
proof -
  let ?c' = "c\<lparr>availableSlots := availableSlots c - 1\<rparr>"
  let ?s1 = "s\<lparr>conferences := map_modify cn (\<lambda>_. ?c') (conferences s)\<rparr>"
  have hc: "hasConflictingBooking uid c s = Inr False"
    using hasConflictingBooking_holds [OF wf u] nh by simp
  have dec: "decreaseAvailableSlots c = (True, ?c')"
    using av by (simp add: decreaseAvailableSlots_def)
  from wf have "queued_known ?s1" by (simp add: consistent_def queued_known_def)
  from removeFromOverlappingWaitlists_ok [OF this, of ?c' uid] obtain cns s2 where
    r: "name ?c' \<notin> set cns" "removeFromOverlappingWaitlists uid ?c' ?s1 = (Inr (), s2)"
       "evicted uid cns ?s1 s2" by blast
  from wf c have "name c = cn" unfolding consistent_def names_ok_def by blast
  with r(1) have "cn \<notin> set cns" by simp
  moreover from r(3) u have "map_of (users s2) uid = Some u" by (simp add: evicted_def)
  then have "bookConference uid cn t1 t2 junk s =
       (Inr (bookingId (newBooking uid cn t2 junk)),
        s2\<lparr>bookings := map_emplace (bookingId (newBooking uid cn t2 junk))
                          (setStatus CONFIRMED (newBooking uid cn t2 junk)) (bookings s2),
            users := map_modify uid (addBooking (bookingId (newBooking uid cn t2 junk)) CONFIRMED)
                       (users s2)\<rparr>)"
    unfolding bookConference_def by (simp add: u c ns nd hc dec r(2) Let_def)
  moreover from removeFromOverlappingWaitlists_keys [of uid ?c' ?s1] r(2)
  have "map fst (bookings s2) = map fst (bookings s)" by simp
  ultimately show ?thesis using r(3) by blast
qed

lemma book_waitlisted:
  assumes wf: "consistent s" and u: "map_of (users s) uid = Some u"
    and c: "map_of (conferences s) cn = Some c" and ns: "\<not> hasStarted t1 c"
    and nd: "find (\<lambda>(bid, b). bookingUserId b = uid \<and> conferenceName b = cn \<and>
                   status b \<noteq> CANCELED) (bookings s) = None"
    and nh: "\<not> holdsOverlapping u c s" and av: "\<not> availableSlots c > 0"
  shows "bookConference uid cn t1 t2 junk s =
       (Inr (bookingId (newBooking uid cn t2 junk)),
        s\<lparr>waitlists := map_assign cn (queue_of cn (waitlists s) @ [bookingId (newBooking uid cn t2 junk)])
                          (map_index cn (waitlists s)),
           bookings := map_emplace (bookingId (newBooking uid cn t2 junk))
                          (setStatus WAITLISTED (newBooking uid cn t2 junk)) (bookings s),
           users := map_modify uid (addBooking (bookingId (newBooking uid cn t2 junk)) WAITLISTED)
                       (users s)\<rparr>)"
proof -
  have hc: "hasConflictingBooking uid c s = Inr False"
    using hasConflictingBooking_holds [OF wf u] nh by simp
  have dec: "decreaseAvailableSlots c = (False, c)"
    using av by (simp add: decreaseAvailableSlots_def)
  show ?thesis
    unfolding bookConference_def by (simp add: u c ns nd hc dec Let_def)
qed

lemma book_failed:
  assumes wf: "consistent s"
  shows "bookConference uid cn t1 t2 junk s =
     (case map_of (users s) uid of
        None \<Rightarrow> (Inl UserNotFound, s)
      | Some u \<Rightarrow>
     (case map_of (conferences s) cn of
        None \<Rightarrow> (Inl ConferenceNotFound, s)
      | Some c \<Rightarrow>
     if hasStarted t1 c then (Inl BookStarted, s)
     else
     (case find (\<lambda>(bid, b). bookingUserId b = uid \<and> conferenceName b = cn \<and>
                   status b \<noteq> CANCELED) (bookings s) of
        Some (bid, b) \<Rightarrow> (Inl (ActiveBookingExists bid), s)
      | None \<Rightarrow>
     if holdsOverlapping u c s then (Inl ConflictingBooking, s)
     else bookConference uid cn t1 t2 junk s)))"
proof (cases "map_of (users s) uid")
  case None
  then show ?thesis by (simp add: bookConference_def)
next
  case (Some u)
  show ?thesis
    using hasConflictingBooking_holds [OF wf Some]
    by (auto simp: bookConference_def Some split: option.splits)
qed

lemma overlap_sym:
  "isTimeOverlapping c1 (startTime c2) (endTime c2) = isTimeOverlapping c2 (startTime c1) (endTime c1)"
  by (auto simp: isTimeOverlapping_def)

lemma not_holds_no_confirmed:
  assumes "consistent s" "map_of (users s) uid = Some u" "\<not> holdsOverlapping u c s"
    "map_of (bookings s) k = Some b" "bookingUserId b = uid" "status b = CONFIRMED"
    "map_of (conferences s) (conferenceName b) = Some ec"
  shows "\<not> isTimeOverlapping ec (startTime c) (endTime c)"
proof -
  from assms(1,4,6) obtain u' where "map_of (users s) (bookingUserId b) = Some u'"
    "k \<in> fst ` set (bookingStatuses u')"
    unfolding consistent_def ledger_covers_def by (metis BookingStatus.distinct(3))
  with assms(2,5) have "k \<in> fst ` set (bookingStatuses u)" by simp
  with assms(3,4,6,7) show ?thesis unfolding holdsOverlapping_def by blast
qed

lemma consistent_new_booking:
  assumes wf: "consistent s"
    and u: "map_of (users s) uid = Some u"
    and c: "map_of (conferences s) cn = Some c"
    and nb: "bookingUserId nb = uid" "conferenceName nb = cn" "status nb = st" "st \<noteq> CANCELED"
    and cs: "conferences s' = conferences s"
    and bs: "bookings s' = map_emplace bid nb (bookings s)"
    and us: "users s' = map_modify uid (addBooking bid st) (users s)"
    and q1: "\<And>c. set (queue_of c (waitlists s)) \<subseteq> set (queue_of c (waitlists s'))"
    and q2: "\<And>c. set (queue_of c (waitlists s')) \<subseteq> insert bid (set (queue_of c (waitlists s)))"
    and q3: "st = WAITLISTED \<Longrightarrow> bid \<in> set (queue_of cn (waitlists s'))"
    and no: "\<And>k b ec. st = CONFIRMED \<Longrightarrow> map_of (bookings s) k = Some b \<Longrightarrow>
        bookingUserId b = uid \<Longrightarrow> status b = CONFIRMED \<Longrightarrow>
        map_of (conferences s) (conferenceName b) = Some ec \<Longrightarrow>
        \<not> isTimeOverlapping ec (startTime c) (endTime c)"
  shows "consistent s'"
proof -
  have bk: "map_of (bookings s') k =
      (if k = bid \<and> map_of (bookings s) bid = None then Some nb else map_of (bookings s) k)" for k
    unfolding bs by (simp add: map_of_map_emplace)
  have bk_old: "map_of (bookings s) k = Some b \<Longrightarrow> map_of (bookings s') k = Some b" for k b
    unfolding bk by auto
  have bk_cases: "(k = bid \<and> map_of (bookings s) bid = None \<and> b = nb) \<or> map_of (bookings s) k = Some b"
    if "map_of (bookings s') k = Some b" for k b
    using that unfolding bk by (auto split: if_splits)
  have bid_known: "map_of (bookings s') bid \<noteq> None"
    unfolding bk by auto
  have usr: "map_of (users s') x = (if x = uid then Some (addBooking bid st u) else map_of (users s) x)"
    for x
    unfolding us using u by simp
  have led: "set (bookingStatuses (addBooking bid st u)) \<subseteq> insert (bid, st) (set (bookingStatuses u))"
    using set_map_assign [of _ bid st "bookingStatuses u"] by (auto simp: addBooking_def)
  have led_keys: "fst ` set (bookingStatuses (addBooking bid st u)) =
      insert bid (fst ` set (bookingStatuses u))"
    by (simp add: addBooking_def)
  from wf have inv: "names_ok s" "queued_known s" "booking_refs s" "ledger_ok s" "ledger_covers s"
    "waiting_queued s" "no_overlap s" by (simp_all add: consistent_def)
  have 1: "names_ok s'" using inv(1) by (simp add: names_ok_def cs)
  have 2: "queued_known s'"
    unfolding queued_known_def
  proof (intro allI impI)
    fix c0 k assume "k \<in> set (queue_of c0 (waitlists s'))"
    with q2 [of c0] have "k = bid \<or> k \<in> set (queue_of c0 (waitlists s))" by blast
    then show "map_of (bookings s') k \<noteq> None"
    proof
      assume "k = bid" with bid_known show ?thesis by simp
    next
      assume "k \<in> set (queue_of c0 (waitlists s))"
      with inv(2) obtain b where "map_of (bookings s) k = Some b"
        unfolding queued_known_def by blast
      from bk_old [OF this] show ?thesis by simp
    qed
  qed
  have 3: "booking_refs s'"
    unfolding booking_refs_def
  proof (intro allI impI)
    fix k b assume "map_of (bookings s') k = Some b"
    from bk_cases [OF this]
    show "map_of (conferences s') (conferenceName b) \<noteq> None \<and>
        map_of (users s') (bookingUserId b) \<noteq> None"
    proof
      assume "k = bid \<and> map_of (bookings s) bid = None \<and> b = nb"
      then show ?thesis using nb c u by (simp add: cs usr)
    next
      assume "map_of (bookings s) k = Some b"
      with inv(3) show ?thesis unfolding booking_refs_def by (simp add: cs usr)
    qed
  qed
  have 4: "ledger_ok s'"
    unfolding ledger_ok_def
  proof (intro allI impI, elim conjE)
    fix x u' k st'
    assume u': "map_of (users s') x = Some u'" and m: "(k, st') \<in> set (bookingStatuses u')"
    show "st' \<noteq> CANCELED \<and> map_of (bookings s') k \<noteq> None"
    proof (cases "x = uid")
      case True
      with u' have "u' = addBooking bid st u" by (simp add: usr)
      with m led have "(k, st') = (bid, st) \<or> (k, st') \<in> set (bookingStatuses u)" by blast
      then show ?thesis
      proof
        assume "(k, st') = (bid, st)"
        with nb(4) bid_known show ?thesis by simp
      next
        assume "(k, st') \<in> set (bookingStatuses u)"
        with inv(4) u have "st' \<noteq> CANCELED" "map_of (bookings s) k \<noteq> None"
          unfolding ledger_ok_def by blast+
        then show ?thesis using bk_old [of k] by auto
      qed
    next
      case False
      with u' have "map_of (users s) x = Some u'" by (simp add: usr)
      with inv(4) m have "st' \<noteq> CANCELED" "map_of (bookings s) k \<noteq> None"
        unfolding ledger_ok_def by blast+
      then show ?thesis using bk_old [of k] by auto
    qed
  qed
  have 5: "ledger_covers s'"
    unfolding ledger_covers_def
  proof (intro allI impI, elim conjE)
    fix k b assume b: "map_of (bookings s') k = Some b" and nc: "status b \<noteq> CANCELED"
    from bk_cases [OF b]
    show "\<exists>u. map_of (users s') (bookingUserId b) = Some u \<and> k \<in> fst ` set (bookingStatuses u)"
    proof
      assume "k = bid \<and> map_of (bookings s) bid = None \<and> b = nb"
      then show ?thesis using nb by (simp add: usr led_keys)
    next
      assume "map_of (bookings s) k = Some b"
      with inv(5) nc obtain u0 where u0: "map_of (users s) (bookingUserId b) = Some u0"
        "k \<in> fst ` set (bookingStatuses u0)" unfolding ledger_covers_def by blast
      show ?thesis
      proof (cases "bookingUserId b = uid")
        case True
        with u0 u led_keys show ?thesis by (auto simp: usr)
      next
        case False
        with u0 show ?thesis by (simp add: usr)
      qed
    qed
  qed
  have 6: "waiting_queued s'"
    unfolding waiting_queued_def
  proof (intro allI impI, elim conjE)
    fix k b assume b: "map_of (bookings s') k = Some b" and w: "status b = WAITLISTED"
    from bk_cases [OF b] show "k \<in> set (queue_of (conferenceName b) (waitlists s'))"
    proof
      assume "k = bid \<and> map_of (bookings s) bid = None \<and> b = nb"
      with w nb q3 show ?thesis by simp
    next
      assume "map_of (bookings s) k = Some b"
      with inv(6) w have "k \<in> set (queue_of (conferenceName b) (waitlists s))"
        unfolding waiting_queued_def by blast
      with q1 show ?thesis by blast
    qed
  qed
  have 7: "no_overlap s'"
    unfolding no_overlap_def
  proof (intro allI impI, elim conjE)
    fix k1 k2 b1 b2 c1 c2
    assume a: "k1 \<noteq> k2" "map_of (bookings s') k1 = Some b1" "map_of (bookings s') k2 = Some b2"
      "bookingUserId b1 = bookingUserId b2" "status b1 = CONFIRMED" "status b2 = CONFIRMED"
      "map_of (conferences s') (conferenceName b1) = Some c1"
      "map_of (conferences s') (conferenceName b2) = Some c2"
    note cases1 = bk_cases [OF a(2)] and cases2 = bk_cases [OF a(3)]
    show "\<not> isTimeOverlapping c1 (startTime c2) (endTime c2)"
    proof (cases "map_of (bookings s) k1 = Some b1")
      case old1: True
      show ?thesis
      proof (cases "map_of (bookings s) k2 = Some b2")
        case True
        with old1 inv(7) a show ?thesis unfolding no_overlap_def cs by blast
      next
        case False
        with cases2 have n2: "k2 = bid" "b2 = nb" by auto
        with a nb c have "c2 = c" "bookingUserId b1 = uid" "st = CONFIRMED" by (simp_all add: cs)
        with no [OF _ old1] a(5,7) show ?thesis by (simp add: cs)
      qed
    next
      case False
      with cases1 have n1: "k1 = bid" "b1 = nb" "map_of (bookings s) bid = None" by auto
      with a(1) cases2 have old2: "map_of (bookings s) k2 = Some b2" by auto
      from n1 a nb c have "c1 = c" "bookingUserId b2 = uid" "st = CONFIRMED" by (simp_all add: cs)
      with no [OF _ old2] a(6,8) overlap_sym [of c c2] show ?thesis by (simp add: cs)
    qed
  qed
  from 1 2 3 4 5 6 7 show ?thesis by (simp add: consistent_def)
qed

lemma consistent_promote:
  assumes wf: "consistent s"
    and b: "map_of (bookings s) bid = Some b" and w: "status b = WAITLISTED"
    and c: "map_of (conferences s) (conferenceName b) = Some c"
    and u: "map_of (users s) (bookingUserId b) = Some u"
    and nh: "\<not> holdsOverlapping u c s"
    and cs: "\<And>cn. map_option window (map_of (conferences s') cn) =
                  map_option window (map_of (conferences s) cn)"
    and us: "users s' = users s"
    and bs: "bookings s' = map_modify bid (setStatus CONFIRMED) (bookings s)"
    and q: "\<And>c0. set (queue_of c0 (waitlists s')) =
        set (queue_of c0 (waitlists s)) - (if c0 = conferenceName b then {bid} else {})"
  shows "consistent s'"
proof -
  have bk: "map_of (bookings s') k =
      (if k = bid then Some (setStatus CONFIRMED b) else map_of (bookings s) k)" for k
    unfolding bs using b by simp
  have conf: "\<exists>c. map_of (conferences s) cn = Some c \<and> window c' = window c"
    if "map_of (conferences s') cn = Some c'" for cn c'
    using cs [of cn] that by (cases "map_of (conferences s) cn") auto
  have conf_known: "map_of (conferences s') cn \<noteq> None" if "map_of (conferences s) cn \<noteq> None" for cn
    using cs [of cn] that by (cases "map_of (conferences s') cn") auto
  from wf have inv: "names_ok s" "queued_known s" "booking_refs s" "ledger_ok s" "ledger_covers s"
    "waiting_queued s" "no_overlap s" by (simp_all add: consistent_def)
  have core: "\<exists>b0. map_of (bookings s) k = Some b0 \<and> bookingUserId b' = bookingUserId b0 \<and>
      conferenceName b' = conferenceName b0 \<and> (k \<noteq> bid \<longrightarrow> b' = b0) \<and>
      (k = bid \<longrightarrow> b0 = b \<and> status b' = CONFIRMED)"
    if "map_of (bookings s') k = Some b'" for k b'
    using that b unfolding bk by (auto simp: setStatus_def split: if_splits)
  have 1: "names_ok s'"
    unfolding names_ok_def
  proof (intro allI impI)
    fix cn c' assume "map_of (conferences s') cn = Some c'"
    from conf [OF this] obtain c0 where "map_of (conferences s) cn = Some c0" "window c' = window c0"
      by blast
    with inv(1) show "name c' = cn" unfolding names_ok_def window_eq by metis
  qed
  have 2: "queued_known s'"
    unfolding queued_known_def
  proof (intro allI impI)
    fix c0 k assume "k \<in> set (queue_of c0 (waitlists s'))"
    with q [of c0] have "k \<in> set (queue_of c0 (waitlists s))" by blast
    with inv(2) have "map_of (bookings s) k \<noteq> None" unfolding queued_known_def by blast
    then show "map_of (bookings s') k \<noteq> None" unfolding bk by simp
  qed
  have 3: "booking_refs s'"
    unfolding booking_refs_def
  proof (intro allI impI)
    fix k b' assume "map_of (bookings s') k = Some b'"
    from core [OF this] obtain b0 where b0: "map_of (bookings s) k = Some b0"
      "bookingUserId b' = bookingUserId b0" "conferenceName b' = conferenceName b0" by blast
    with inv(3) have "map_of (conferences s) (conferenceName b') \<noteq> None"
      "map_of (users s) (bookingUserId b') \<noteq> None"
      unfolding booking_refs_def by metis+
    then show "map_of (conferences s') (conferenceName b') \<noteq> None \<and>
        map_of (users s') (bookingUserId b') \<noteq> None"
      using conf_known [of "conferenceName b'"] by (simp add: us)
  qed
  have 4: "ledger_ok s'"
    unfolding ledger_ok_def
  proof (intro allI impI, elim conjE)
    fix x u' k st'
    assume "map_of (users s') x = Some u'" "(k, st') \<in> set (bookingStatuses u')"
    with inv(4) have "st' \<noteq> CANCELED" "map_of (bookings s) k \<noteq> None"
      unfolding ledger_ok_def us by blast+
    then show "st' \<noteq> CANCELED \<and> map_of (bookings s') k \<noteq> None" unfolding bk by simp
  qed
  have 5: "ledger_covers s'"
    unfolding ledger_covers_def
  proof (intro allI impI, elim conjE)
    fix k b' assume b': "map_of (bookings s') k = Some b'" and nc: "status b' \<noteq> CANCELED"
    from core [OF b'] obtain b0 where b0: "map_of (bookings s) k = Some b0"
      "bookingUserId b' = bookingUserId b0" "k \<noteq> bid \<longrightarrow> b' = b0" "k = bid \<longrightarrow> b0 = b" by blast
    with nc w have "status b0 \<noteq> CANCELED" by (cases "k = bid") auto
    with inv(5) b0(1) obtain u0 where "map_of (users s) (bookingUserId b0) = Some u0"
      "k \<in> fst ` set (bookingStatuses u0)" unfolding ledger_covers_def by blast
    then show "\<exists>u. map_of (users s') (bookingUserId b') = Some u \<and> k \<in> fst ` set (bookingStatuses u)"
      by (simp add: us b0(2))
  qed
  have 6: "waiting_queued s'"
    unfolding waiting_queued_def
  proof (intro allI impI, elim conjE)
    fix k b' assume b': "map_of (bookings s') k = Some b'" and w': "status b' = WAITLISTED"
    from core [OF b'] w' have nk: "k \<noteq> bid" and old: "map_of (bookings s) k = Some b'" by auto
    with inv(6) w' have "k \<in> set (queue_of (conferenceName b') (waitlists s))"
      unfolding waiting_queued_def by blast
    with nk show "k \<in> set (queue_of (conferenceName b') (waitlists s'))"
      unfolding q by simp
  qed
  have promoted: "\<not> isTimeOverlapping c2 (startTime c) (endTime c)"
    if "k2 \<noteq> bid" "map_of (bookings s) k2 = Some b2" "bookingUserId b2 = bookingUserId b"
      "status b2 = CONFIRMED" "map_of (conferences s) (conferenceName b2) = Some c2" for k2 b2 c2
    using not_holds_no_confirmed [OF wf u nh that(2,3,4,5)] .
  have 7: "no_overlap s'"
    unfolding no_overlap_def
  proof (intro allI impI, elim conjE)
    fix k1 k2 b1' b2' c1' c2'
    assume a: "k1 \<noteq> k2" "map_of (bookings s') k1 = Some b1'" "map_of (bookings s') k2 = Some b2'"
      "bookingUserId b1' = bookingUserId b2'" "status b1' = CONFIRMED" "status b2' = CONFIRMED"
      "map_of (conferences s') (conferenceName b1') = Some c1'"
      "map_of (conferences s') (conferenceName b2') = Some c2'"
    from core [OF a(2)] obtain b1 where b1: "map_of (bookings s) k1 = Some b1"
      "bookingUserId b1' = bookingUserId b1" "conferenceName b1' = conferenceName b1"
      "k1 \<noteq> bid \<longrightarrow> b1' = b1" "k1 = bid \<longrightarrow> b1 = b" by blast
    from core [OF a(3)] obtain b2 where b2: "map_of (bookings s) k2 = Some b2"
      "bookingUserId b2' = bookingUserId b2" "conferenceName b2' = conferenceName b2"
      "k2 \<noteq> bid \<longrightarrow> b2' = b2" "k2 = bid \<longrightarrow> b2 = b" by blast
    from conf [OF a(7)] b1(3) obtain c1 where c1: "map_of (conferences s) (conferenceName b1) = Some c1"
      "window c1' = window c1" by auto
    from conf [OF a(8)] b2(3) obtain c2 where c2: "map_of (conferences s) (conferenceName b2) = Some c2"
      "window c2' = window c2" by auto
    have "\<not> isTimeOverlapping c1 (startTime c2) (endTime c2)"
    proof (cases "k1 = bid")
      case True
      with a(1) b1 b2 have "k2 \<noteq> bid" "b1 = b" "b2' = b2" by auto
      with a(4,6) b1(2) b2 c c1 c2 promoted [of k2 b2 c2] overlap_sym [of c c2]
      show ?thesis by simp
    next
      case k1: False
      show ?thesis
      proof (cases "k2 = bid")
        case True
        with k1 b1 b2 have "b2 = b" "b1' = b1" by auto
        with a(4,5) k1 b1 b2(2) c c1 c2 promoted [of k1 b1 c1] show ?thesis by simp
      next
        case False
        with k1 b1 b2 have "b1' = b1" "b2' = b2" by auto
        with inv(7) a(1,4,5,6) b1(1) b2(1) c1(1) c2(1) show ?thesis
          unfolding no_overlap_def by blast
      qed
    qed
    then show "\<not> isTimeOverlapping c1' (startTime c2') (endTime c2')"
      using overlap_window [OF c1(2) c2(2)] by simp
  qed
  from 1 2 3 4 5 6 7 show ?thesis by (simp add: consistent_def)
qed

lemma consistent_init: "consistent init"
  by (simp add: consistent_def init_def names_ok_def queued_known_def booking_refs_def ledger_ok_def
      ledger_covers_def waiting_queued_def no_overlap_def queue_of_def)

lemma consistent_names: "consistent s \<Longrightarrow> map_of (conferences s) cn = Some c \<Longrightarrow> name c = cn"
  unfolding consistent_def names_ok_def by blast

lemma consistent_addConference:
  assumes wf: "consistent s"
  shows "consistent (snd (addConference n loc ts start end slots s))"
proof (cases "map_of (conferences s) n")
  case (Some c)
  with wf show ?thesis by (simp add: addConference_def)
next
  case None
  show ?thesis
  proof (cases "newConference n loc ts start end slots")
    case (Inl e)
    with None wf show ?thesis by (simp add: addConference_def)
  next
    case (Inr c)
    then have nm: "name c = n" by (auto simp: newConference_def split: if_splits)
    let ?s' = "s\<lparr>conferences := map_emplace n c (conferences s)\<rparr>"
    have "consistent ?s'"
    proof (rule consistent_step [OF wf])
      fix cn c0 assume "map_of (conferences s) cn = Some c0"
      with None show "\<exists>c'. map_of (conferences ?s') cn = Some c' \<and> window c' = window c0"
        by (auto simp: map_of_map_emplace)
    next
      fix cn c' assume "map_of (conferences ?s') cn = Some c'"
      with None nm consistent_names [OF wf] show "name c' = cn"
        by (auto simp: map_of_map_emplace split: if_splits)
    qed auto
    with None Inr show ?thesis by (simp add: addConference_def)
  qed
qed

lemma consistent_addUser:
  assumes wf: "consistent s"
  shows "consistent (snd (addUser uid ts s))"
proof (cases "map_of (users s) uid")
  case (Some u)
  with wf show ?thesis by (simp add: addUser_def)
next
  case None
  show ?thesis
  proof (cases "newUser uid ts")
    case (Inl e)
    with None wf show ?thesis by (simp add: addUser_def)
  next
    case (Inr u)
    then have em: "bookingStatuses u = []" by (auto simp: newUser_def split: if_splits)
    let ?s' = "s\<lparr>users := map_emplace uid u (users s)\<rparr>"
    have us: "map_of (users ?s') x = (if x = uid then Some u else map_of (users s) x)" for x
      using None by (simp add: map_of_map_emplace)
    have "consistent ?s'"
    proof (rule consistent_step [OF wf])
      fix x assume "map_of (users s) x \<noteq> None"
      then show "map_of (users ?s') x \<noteq> None" unfolding us by simp
    next
      fix x u' k st assume "map_of (users ?s') x = Some u'" "(k, st) \<in> set (bookingStatuses u')"
      then show "\<exists>u. map_of (users s) x = Some u \<and> (k, st) \<in> set (bookingStatuses u)"
        unfolding us using em by (auto split: if_splits)
    next
      fix k b' u0 u'
      assume "map_of (users s) (bookingUserId b') = Some u0"
        "map_of (users ?s') (bookingUserId b') = Some u'" "k \<in> fst ` set (bookingStatuses u0)"
      then show "k \<in> fst ` set (bookingStatuses u')"
        unfolding us using None by (auto split: if_splits)
    next
      fix cn c' assume "map_of (conferences ?s') cn = Some c'"
      with consistent_names [OF wf] show "name c' = cn" by simp
    qed auto
    with None Inr show ?thesis by (simp add: addUser_def)
  qed
qed

lemma consistent_slots:
  assumes wf: "consistent s" and c: "map_of (conferences s) cn = Some c" and w: "window (f c) = window c"
  shows "consistent (s\<lparr>conferences := map_modify cn f (conferences s)\<rparr>)"
proof (rule consistent_step [OF wf])
  fix cn' c0 assume "map_of (conferences s) cn' = Some c0"
  with c w show "\<exists>c'. map_of (conferences (s\<lparr>conferences := map_modify cn f (conferences s)\<rparr>)) cn' =
      Some c' \<and> window c' = window c0"
    by auto
next
  fix cn' c' assume "map_of (conferences (s\<lparr>conferences := map_modify cn f (conferences s)\<rparr>)) cn' = Some c'"
  with c w consistent_names [OF wf] show "name c' = cn'"
    by (auto simp: window_eq split: if_splits)
qed auto

lemma newBooking_fields [simp]:
  "bookingUserId (newBooking uid cn t junk) = uid"
  "conferenceName (newBooking uid cn t junk) = cn"
  "bookingUserId (setStatus st b) = bookingUserId b"
  "conferenceName (setStatus st b) = conferenceName b"
  "status (setStatus st b) = st"
  "confirmationDeadline (setStatus st b) = confirmationDeadline b"
  by (simp_all add: newBooking_def setStatus_def)

lemma consistent_bookConference:
  assumes wf: "consistent s"
  shows "consistent (snd (bookConference uid cn t1 t2 junk s))"
proof (cases "\<exists>u c. map_of (users s) uid = Some u \<and> map_of (conferences s) cn = Some c \<and>
    \<not> hasStarted t1 c \<and>
    find (\<lambda>(bid, b). bookingUserId b = uid \<and> conferenceName b = cn \<and> status b \<noteq> CANCELED)
      (bookings s) = None \<and> \<not> holdsOverlapping u c s")
  case False
  then have "snd (bookConference uid cn t1 t2 junk s) = s"
    by (subst book_failed [OF wf]) (auto split: option.splits)
  with wf show ?thesis by simp
next
  case True
  then obtain u c where u: "map_of (users s) uid = Some u"
    and c: "map_of (conferences s) cn = Some c" and ns: "\<not> hasStarted t1 c"
    and nd: "find (\<lambda>(bid, b). bookingUserId b = uid \<and> conferenceName b = cn \<and>
                   status b \<noteq> CANCELED) (bookings s) = None"
    and nh: "\<not> holdsOverlapping u c s" by blast
  let ?nb = "newBooking uid cn t2 junk"
  let ?bid = "bookingId ?nb"
  show ?thesis
  proof (cases "availableSlots c > 0")
    case False
    let ?s' = "s\<lparr>waitlists := map_assign cn (queue_of cn (waitlists s) @ [?bid])
                          (map_index cn (waitlists s)),
           bookings := map_emplace ?bid (setStatus WAITLISTED ?nb) (bookings s),
           users := map_modify uid (addBooking ?bid WAITLISTED) (users s)\<rparr>"
    have "consistent ?s'"
      by (rule consistent_new_booking [OF wf u c, of "setStatus WAITLISTED ?nb" WAITLISTED _ ?bid]) auto
    with book_waitlisted [OF wf u c ns nd nh False] show ?thesis by simp
  next
    case True
    let ?c' = "c\<lparr>availableSlots := availableSlots c - 1\<rparr>"
    let ?s1 = "s\<lparr>conferences := map_modify cn (\<lambda>_. ?c') (conferences s)\<rparr>"
    from book_confirmed [OF wf u c ns nd nh True, of t2 junk] obtain cns s2 where
      e: "evicted uid cns ?s1 s2" and
      r: "bookConference uid cn t1 t2 junk s =
       (Inr ?bid, s2\<lparr>bookings := map_emplace ?bid (setStatus CONFIRMED ?nb) (bookings s2),
            users := map_modify uid (addBooking ?bid CONFIRMED) (users s2)\<rparr>)"
      by blast
    have w1: "consistent ?s1" by (rule consistent_slots [OF wf c]) (simp add: window_def)
    have w2: "consistent s2" by (rule consistent_evicted [OF w1 e])
    from e have f: "conferences s2 = conferences ?s1" "users s2 = users s"
      by (simp_all add: evicted_def)
    have u2: "map_of (users s2) uid = Some u" using u f by simp
    have c2: "map_of (conferences s2) cn = Some ?c'" using c f by simp
    have no: "\<not> isTimeOverlapping ec (startTime ?c') (endTime ?c')"
      if "map_of (bookings s2) k = Some b" "bookingUserId b = uid" "status b = CONFIRMED"
        "map_of (conferences s2) (conferenceName b) = Some ec" for k b ec
    proof -
      from evicted_booking [OF e that(1)] that(3) have b: "map_of (bookings s) k = Some b"
        by (metis BookingStatus.distinct(3) System.simps(3) System.surjective System.update_convs(1))
      from that(4) c obtain ec0 where ec0: "map_of (conferences s) (conferenceName b) = Some ec0"
        "window ec = window ec0"
        unfolding f by (auto simp: window_def split: if_splits)
      from not_holds_no_confirmed [OF wf u nh b that(2,3) ec0(1)] ec0(2)
      show ?thesis by (simp add: isTimeOverlapping_def window_eq)
    qed
    have "consistent (s2\<lparr>bookings := map_emplace ?bid (setStatus CONFIRMED ?nb) (bookings s2),
            users := map_modify uid (addBooking ?bid CONFIRMED) (users s2)\<rparr>)"
      by (rule consistent_new_booking [OF w2 u2 c2, of "setStatus CONFIRMED ?nb" CONFIRMED _ ?bid])
        (use no in auto)
    with r show ?thesis by simp
  qed
qed

lemma deadline_fields [simp]:
  "bookingUserId (setConfirmationDeadline d b) = bookingUserId b"
  "conferenceName (setConfirmationDeadline d b) = conferenceName b"
  "status (setConfirmationDeadline d b) = status b"
  "confirmationDeadline (setConfirmationDeadline d b) = d"
  by (simp_all add: setConfirmationDeadline_def)

lemma map_index_assign [simp]: "map_index k (map_assign k q w) = map_assign k q w"
  by (simp add: map_index_def)

lemma consistent_user_known:
  "consistent s \<Longrightarrow> map_of (bookings s) k = Some b \<Longrightarrow> \<exists>u. map_of (users s) (bookingUserId b) = Some u"
  unfolding consistent_def booking_refs_def by blast

lemma consistent_conf_known:
  "consistent s \<Longrightarrow> map_of (bookings s) k = Some b \<Longrightarrow>
   \<exists>c. map_of (conferences s) (conferenceName b) = Some c"
  unfolding consistent_def booking_refs_def by blast

lemma cancel_failed:
  assumes wf: "consistent s"
  shows "cancelBooking bid t1 t2 s =
     (case map_of (bookings s) bid of
        None \<Rightarrow> (Inl BookingNotFound, s)
      | Some b \<Rightarrow>
     if status b = CANCELED then (Inl AlreadyCanceled, s)
     else
     (case map_of (conferences s) (conferenceName b) of
        None \<Rightarrow> (Inl OutOfRange, s)
      | Some c \<Rightarrow>
     if hasStarted t1 c then (Inl CancelStarted, s)
     else cancelBooking bid t1 t2 s))"
  by (auto simp: cancelBooking_def split: option.splits)

lemma cancel_confirmed:
  assumes wf: "consistent s" and b: "map_of (bookings s) bid = Some b" and st: "status b = CONFIRMED"
    and c: "map_of (conferences s) (conferenceName b) = Some c" and ns: "\<not> hasStarted t1 c"
  shows "cancelBooking bid t1 t2 s =
     (Inr True,
      s\<lparr>conferences := map_modify (conferenceName b) increaseAvailableSlots (conferences s),
        waitlists := map_index (conferenceName b) (waitlists s),
        bookings := map_modify bid (setStatus CANCELED)
          (case queue_of (conferenceName b) (waitlists s) of
             [] \<Rightarrow> bookings s
           | k # _ \<Rightarrow> map_modify k (setConfirmationDeadline (t2 + 3600)) (bookings s)),
        users := map_modify (bookingUserId b) (removeBooking bid) (users s)\<rparr>)"
proof -
  let ?s0 = "s\<lparr>conferences := map_modify (conferenceName b) increaseAvailableSlots (conferences s)\<rparr>"
  from wf have "queued_known ?s0" by (simp add: consistent_def queued_known_def)
  note pw = processWaitlist_ok [OF this, of "conferenceName b" t2]
  from consistent_user_known [OF wf b] obtain u where u: "map_of (users s) (bookingUserId b) = Some u"
    by blast
  show ?thesis
    unfolding cancelBooking_def by (simp add: b st c ns pw u Let_def split: list.splits)
qed

lemma cancel_waitlisted:
  assumes wf: "consistent s" and b: "map_of (bookings s) bid = Some b" and st: "status b = WAITLISTED"
    and c: "map_of (conferences s) (conferenceName b) = Some c" and ns: "\<not> hasStarted t1 c"
  shows "cancelBooking bid t1 t2 s =
     (Inr True,
      s\<lparr>waitlists := map_assign (conferenceName b)
          (filter (\<lambda>k. k \<noteq> bid) (queue_of (conferenceName b) (waitlists s)))
          (map_index (conferenceName b) (waitlists s)),
        bookings := map_modify bid (setStatus CANCELED) (bookings s),
        users := map_modify (bookingUserId b) (removeBooking bid) (users s)\<rparr>)"
proof -
  from consistent_user_known [OF wf b] obtain u where u: "map_of (users s) (bookingUserId b) = Some u"
    by blast
  show ?thesis
    unfolding cancelBooking_def by (simp add: b st c ns u Let_def)
qed

lemma removeBooking_ledger [simp]:
  "(k, st) \<in> set (bookingStatuses (removeBooking bid u)) \<longleftrightarrow>
   k \<noteq> bid \<and> (k, st) \<in> set (bookingStatuses u)"
  by (simp add: removeBooking_def)

lemma removeBooking_keys:
  "k \<noteq> bid \<Longrightarrow> k \<in> fst ` set (bookingStatuses u) \<Longrightarrow>
   k \<in> fst ` set (bookingStatuses (removeBooking bid u))"
proof -
  assume "k \<noteq> bid" "k \<in> fst ` set (bookingStatuses u)"
  then obtain st where "(k, st) \<in> set (bookingStatuses (removeBooking bid u))" by auto
  then show ?thesis by (rule rev_image_eqI) simp
qed

lemma window_increase [simp]:
  "window (increaseAvailableSlots c) = window c" "name (increaseAvailableSlots c) = name c"
  by (simp_all add: window_def increaseAvailableSlots_def)

lemma consistent_cancel_shape:
  assumes wf: "consistent s" and b: "map_of (bookings s) bid = Some b"
    and cs: "\<And>cn c0. map_of (conferences s) cn = Some c0 \<Longrightarrow>
                \<exists>c'. map_of (conferences s') cn = Some c' \<and> window c' = window c0"
    and csn: "\<And>cn c'. map_of (conferences s') cn = Some c' \<Longrightarrow> name c' = cn"
    and us: "users s' = map_modify (bookingUserId b) (removeBooking bid) (users s)"
    and bs: "\<And>k. \<exists>f. map_of (bookings s') k = map_option f (map_of (bookings s) k) \<and>
                (\<forall>x. bookingUserId (f x) = bookingUserId x \<and>
                     conferenceName (f x) = conferenceName x \<and>
                     status (f x) = (if k = bid then CANCELED else status x))"
    and q1: "\<And>c0. set (queue_of c0 (waitlists s')) \<subseteq> set (queue_of c0 (waitlists s))"
    and q2: "\<And>c0. set (queue_of c0 (waitlists s)) - {bid} \<subseteq> set (queue_of c0 (waitlists s'))"
  shows "consistent s'"
proof (rule consistent_step [OF wf cs csn])
  fix uid assume "map_of (users s) uid \<noteq> None"
  then show "map_of (users s') uid \<noteq> None" unfolding us by auto
next
  fix uid u' k st assume "map_of (users s') uid = Some u'" "(k, st) \<in> set (bookingStatuses u')"
  then show "\<exists>u. map_of (users s) uid = Some u \<and> (k, st) \<in> set (bookingStatuses u)"
    unfolding us by (cases "map_of (users s) uid") (auto split: if_splits)
next
  fix k b' assume b': "map_of (bookings s') k = Some b'"
  from bs [of k] obtain f where f: "map_of (bookings s') k = map_option f (map_of (bookings s) k)"
    "\<forall>x. bookingUserId (f x) = bookingUserId x \<and> conferenceName (f x) = conferenceName x \<and>
         status (f x) = (if k = bid then CANCELED else status x)" by blast
  from b' f(1) obtain b0 where "map_of (bookings s) k = Some b0" "b' = f b0"
    by (cases "map_of (bookings s) k") auto
  with f(2) show "\<exists>b. map_of (bookings s) k = Some b \<and> bookingUserId b' = bookingUserId b \<and>
      conferenceName b' = conferenceName b \<and> (status b' = status b \<or> status b' = CANCELED)"
    by auto
next
  fix k assume "map_of (bookings s) k \<noteq> None"
  with bs [of k] show "map_of (bookings s') k \<noteq> None" by auto
next
  fix c0 show "set (queue_of c0 (waitlists s')) \<subseteq> set (queue_of c0 (waitlists s))" by (rule q1)
next
  fix k b' u u'
  assume b': "map_of (bookings s') k = Some b'" and nc: "status b' \<noteq> CANCELED"
    and u: "map_of (users s) (bookingUserId b') = Some u"
    and u': "map_of (users s') (bookingUserId b') = Some u'"
    and m: "k \<in> fst ` set (bookingStatuses u)"
  from bs [of k] b' nc have "k \<noteq> bid" by (cases "map_of (bookings s) k") auto
  from removeBooking_keys [OF this m] u u'
  show "k \<in> fst ` set (bookingStatuses u')" unfolding us by (auto split: if_splits)
next
  fix k b'
  assume b': "map_of (bookings s') k = Some b'" and w: "status b' = WAITLISTED"
    and m: "k \<in> set (queue_of (conferenceName b') (waitlists s))"
  from bs [of k] b' w have "k \<noteq> bid" by (cases "map_of (bookings s) k") auto
  with m q2 show "k \<in> set (queue_of (conferenceName b') (waitlists s'))" by blast
qed

lemma consistent_cancelBooking:
  assumes wf: "consistent s"
  shows "consistent (snd (cancelBooking bid t1 t2 s))"
proof (cases "\<exists>b c. map_of (bookings s) bid = Some b \<and> status b \<noteq> CANCELED \<and>
    map_of (conferences s) (conferenceName b) = Some c \<and> \<not> hasStarted t1 c")
  case False
  then have "snd (cancelBooking bid t1 t2 s) = s"
    by (subst cancel_failed [OF wf]) (auto split: option.splits)
  with wf show ?thesis by simp
next
  case True
  then obtain b c where b: "map_of (bookings s) bid = Some b" and nc: "status b \<noteq> CANCELED"
    and c: "map_of (conferences s) (conferenceName b) = Some c" and ns: "\<not> hasStarted t1 c"
    by blast
  show ?thesis
  proof (cases "status b = CONFIRMED")
    case True
    let ?s' = "s\<lparr>conferences := map_modify (conferenceName b) increaseAvailableSlots (conferences s),
        waitlists := map_index (conferenceName b) (waitlists s),
        bookings := map_modify bid (setStatus CANCELED)
          (case queue_of (conferenceName b) (waitlists s) of
             [] \<Rightarrow> bookings s
           | k # _ \<Rightarrow> map_modify k (setConfirmationDeadline (t2 + 3600)) (bookings s)),
        users := map_modify (bookingUserId b) (removeBooking bid) (users s)\<rparr>"
    have "consistent ?s'"
    proof (rule consistent_cancel_shape [OF wf b])
      fix cn c0 assume "map_of (conferences s) cn = Some c0"
      then show "\<exists>c'. map_of (conferences ?s') cn = Some c' \<and> window c' = window c0"
        by auto
    next
      fix cn c' assume "map_of (conferences ?s') cn = Some c'"
      with consistent_names [OF wf] show "name c' = cn"
        by (auto split: if_splits)
    next
      fix k
      show "\<exists>f. map_of (bookings ?s') k = map_option f (map_of (bookings s) k) \<and>
                (\<forall>x. bookingUserId (f x) = bookingUserId x \<and>
                     conferenceName (f x) = conferenceName x \<and>
                     status (f x) = (if k = bid then CANCELED else status x))"
      proof (cases "queue_of (conferenceName b) (waitlists s)")
        case Nil
        then show ?thesis
          by (intro exI [of _ "if k = bid then setStatus CANCELED else id"])
            (simp add: option.map_id)
      next
        case (Cons h q)
        then show ?thesis
          by (intro exI [of _ "(if k = bid then setStatus CANCELED else id) \<circ>
                (if k = h then setConfirmationDeadline (t2 + 3600) else id)"])
            (simp add: option.map_id option.map_comp)
      qed
    qed auto
    with cancel_confirmed [OF wf b True c ns] show ?thesis by simp
  next
    case False
    with nc have st: "status b = WAITLISTED" by (cases "status b") auto
    let ?s' = "s\<lparr>waitlists := map_assign (conferenceName b)
          (filter (\<lambda>k. k \<noteq> bid) (queue_of (conferenceName b) (waitlists s)))
          (map_index (conferenceName b) (waitlists s)),
        bookings := map_modify bid (setStatus CANCELED) (bookings s),
        users := map_modify (bookingUserId b) (removeBooking bid) (users s)\<rparr>"
    have "consistent ?s'"
    proof (rule consistent_cancel_shape [OF wf b])
      fix cn c' assume "map_of (conferences ?s') cn = Some c'"
      with consistent_names [OF wf] show "name c' = cn" by simp
    next
      fix k
      show "\<exists>f. map_of (bookings ?s') k = map_option f (map_of (bookings s) k) \<and>
                (\<forall>x. bookingUserId (f x) = bookingUserId x \<and>
                     conferenceName (f x) = conferenceName x \<and>
                     status (f x) = (if k = bid then CANCELED else status x))"
        by (intro exI [of _ "if k = bid then setStatus CANCELED else id"])
          (simp add: option.map_id)
    qed auto
    with cancel_waitlisted [OF wf b st c ns] show ?thesis by simp
  qed
qed

lemma confirm_started:
  assumes wf: "consistent s" and b: "map_of (bookings s) bid = Some b" and st: "status b = WAITLISTED"
    and c: "map_of (conferences s) (conferenceName b) = Some c" and hs: "hasStarted t1 c"
  shows "\<exists>bs'. confirmWaitlistedBooking bid t1 t2 t3 s =
       (Inl ConfirmStarted,
        s\<lparr>bookings := bs',
          waitlists := map_assign (conferenceName b) [] (map_index (conferenceName b) (waitlists s))\<rparr>) \<and>
     map fst bs' = map fst (bookings s) \<and>
     (\<forall>k. map_of bs' k =
        (if k \<in> set (queue_of (conferenceName b) (waitlists s))
         then map_option (setStatus CANCELED) (map_of (bookings s) k)
         else map_of (bookings s) k))"
proof -
  from wf have "queued_known s" by (simp add: consistent_def)
  from cancelAllWaitlistedBookings_ok [OF this, of "conferenceName b"] obtain bs' where
    r: "cancelAllWaitlistedBookings (conferenceName b) s =
       (Inr (), s\<lparr>bookings := bs',
          waitlists := map_assign (conferenceName b) [] (map_index (conferenceName b) (waitlists s))\<rparr>)"
    and m: "\<forall>k. map_of bs' k =
        (if k \<in> set (queue_of (conferenceName b) (waitlists s))
         then map_option (setStatus CANCELED) (map_of (bookings s) k)
         else map_of (bookings s) k)"
    by blast
  have "confirmWaitlistedBooking bid t1 t2 t3 s =
       (Inl ConfirmStarted,
        s\<lparr>bookings := bs',
          waitlists := map_assign (conferenceName b) [] (map_index (conferenceName b) (waitlists s))\<rparr>)"
    unfolding confirmWaitlistedBooking_def by (simp add: b st c hs r Let_def)
  moreover from cancelAllWaitlistedBookings_keys [of "conferenceName b" s] r
  have "map fst bs' = map fst (bookings s)" by simp
  ultimately show ?thesis using m by blast
qed

lemma confirm_expired:
  assumes wf: "consistent s" and b: "map_of (bookings s) bid = Some b" and st: "status b = WAITLISTED"
    and c: "map_of (conferences s) (conferenceName b) = Some c" and ns: "\<not> hasStarted t1 c"
    and ex: "t2 > confirmationDeadline b"
  shows "confirmWaitlistedBooking bid t1 t2 t3 s =
       (Inr False,
        s\<lparr>waitlists := map_assign (conferenceName b)
             (filter (\<lambda>k. k \<noteq> bid) (queue_of (conferenceName b) (waitlists s)) @ [bid])
             (map_index (conferenceName b) (waitlists s)),
          bookings :=
            (if hasSlotAvailable c
             then map_modify
                    (hd (filter (\<lambda>k. k \<noteq> bid) (queue_of (conferenceName b) (waitlists s)) @ [bid]))
                    (setConfirmationDeadline (t3 + 3600)) (bookings s)
             else bookings s)\<rparr>)"
proof -
  let ?cn = "conferenceName b"
  let ?q = "queue_of ?cn (waitlists s)"
  let ?uq = "filter (\<lambda>k. k \<noteq> bid) ?q @ [bid]"
  let ?s1 = "s\<lparr>waitlists := map_assign ?cn ?uq (map_index ?cn (waitlists s))\<rparr>"
  from wf b st have mem: "bid \<in> set ?q" unfolding consistent_def waiting_queued_def by blast
  have "queued_known ?s1"
    using wf b unfolding consistent_def queued_known_def by auto
  note pw0 = processWaitlist_ok [OF this, of ?cn t3]
  obtain h r where hr: "?uq = h # r" by (cases ?uq) auto
  note pw = pw0 [unfolded hr]
  show ?thesis
    unfolding confirmWaitlistedBooking_def
    by (simp add: b st c ns ex mem pw Let_def hr del: hd_append2 hd_append)
qed

lemma confirm_rejected:
  assumes wf: "consistent s" and b: "map_of (bookings s) bid = Some b" and st: "status b = WAITLISTED"
    and c: "map_of (conferences s) (conferenceName b) = Some c" and ns: "\<not> hasStarted t1 c"
    and ex: "\<not> t2 > confirmationDeadline b"
    and u: "map_of (users s) (bookingUserId b) = Some u"
    and no: "holdsOverlapping u c s \<or> \<not> availableSlots c > 0"
  shows "confirmWaitlistedBooking bid t1 t2 t3 s =
       (Inl (if holdsOverlapping u c s then NowConflicting else NoSlotsAvailable), s)"
  unfolding confirmWaitlistedBooking_def
  using no
  by (auto simp: b st c ns ex hasConflictingBooking_holds [OF wf u] decreaseAvailableSlots_def Let_def)

lemma confirm_promoted:
  assumes wf: "consistent s" and b: "map_of (bookings s) bid = Some b" and st: "status b = WAITLISTED"
    and c: "map_of (conferences s) (conferenceName b) = Some c" and ns: "\<not> hasStarted t1 c"
    and ex: "\<not> t2 > confirmationDeadline b"
    and u: "map_of (users s) (bookingUserId b) = Some u"
    and nh: "\<not> holdsOverlapping u c s" and av: "availableSlots c > 0"
  shows "\<exists>cns s4. conferenceName b \<notin> set cns \<and>
     evicted (bookingUserId b) cns
       (s\<lparr>conferences := map_modify (conferenceName b)
             (\<lambda>_. c\<lparr>availableSlots := availableSlots c - 1\<rparr>) (conferences s),
          waitlists := map_assign (conferenceName b)
             (filter (\<lambda>k. k \<noteq> bid) (queue_of (conferenceName b) (waitlists s)))
             (map_index (conferenceName b) (waitlists s)),
          bookings := map_modify bid (setStatus CONFIRMED) (bookings s)\<rparr>) s4 \<and>
     map fst (bookings s4) = map fst (bookings s) \<and>
     confirmWaitlistedBooking bid t1 t2 t3 s = (Inr True, s4)"
proof -
  let ?cn = "conferenceName b"
  let ?c' = "c\<lparr>availableSlots := availableSlots c - 1\<rparr>"
  let ?s3 = "s\<lparr>conferences := map_modify ?cn (\<lambda>_. ?c') (conferences s),
          waitlists := map_assign ?cn (filter (\<lambda>k. k \<noteq> bid) (queue_of ?cn (waitlists s)))
             (map_index ?cn (waitlists s)),
          bookings := map_modify bid (setStatus CONFIRMED) (bookings s)\<rparr>"
  have hc: "hasConflictingBooking (bookingUserId b) c s = Inr False"
    using hasConflictingBooking_holds [OF wf u] nh by simp
  have dec: "decreaseAvailableSlots c = (True, ?c')"
    using av by (simp add: decreaseAvailableSlots_def)
  have "queued_known ?s3"
    using wf unfolding consistent_def queued_known_def by auto
  from removeFromOverlappingWaitlists_ok [OF this, of ?c' "bookingUserId b"] obtain cns s4 where
    r: "name ?c' \<notin> set cns" "removeFromOverlappingWaitlists (bookingUserId b) ?c' ?s3 = (Inr (), s4)"
       "evicted (bookingUserId b) cns ?s3 s4" by blast
  from consistent_names [OF wf c] r(1) have "?cn \<notin> set cns" by simp
  moreover have "confirmWaitlistedBooking bid t1 t2 t3 s = (Inr True, s4)"
    unfolding confirmWaitlistedBooking_def by (simp add: b st c ns ex hc dec r(2) Let_def)
  moreover from removeFromOverlappingWaitlists_keys [of "bookingUserId b" ?c' ?s3] r(2)
  have "map fst (bookings s4) = map fst (bookings s)" by simp
  ultimately show ?thesis using r(3) by blast
qed

lemma confirm_failed:
  "confirmWaitlistedBooking bid t1 t2 t3 s =
     (case map_of (bookings s) bid of
        None \<Rightarrow> (Inl BookingNotFound, s)
      | Some b \<Rightarrow>
          if status b \<noteq> WAITLISTED then (Inl NotWaitlisted, s)
          else confirmWaitlistedBooking bid t1 t2 t3 s)"
  by (auto simp: confirmWaitlistedBooking_def split: option.splits)

lemma consistent_confirmWaitlistedBooking:
  assumes wf: "consistent s"
  shows "consistent (snd (confirmWaitlistedBooking bid t1 t2 t3 s))"
proof (cases "\<exists>b. map_of (bookings s) bid = Some b \<and> status b = WAITLISTED")
  case False
  then have "snd (confirmWaitlistedBooking bid t1 t2 t3 s) = s"
    by (subst confirm_failed) (auto split: option.splits)
  with wf show ?thesis by simp
next
  case True
  then obtain b where b: "map_of (bookings s) bid = Some b" and st: "status b = WAITLISTED"
    by blast
  from consistent_conf_known [OF wf b] obtain c where c: "map_of (conferences s) (conferenceName b) = Some c"
    by blast
  from consistent_user_known [OF wf b] obtain u where u: "map_of (users s) (bookingUserId b) = Some u"
    by blast
  let ?cn = "conferenceName b"
  let ?q = "queue_of ?cn (waitlists s)"
  from wf b st have mem: "bid \<in> set ?q" unfolding consistent_def waiting_queued_def by blast
  consider (started) "hasStarted t1 c"
    | (expired) "\<not> hasStarted t1 c" "t2 > confirmationDeadline b"
    | (rejected) "\<not> hasStarted t1 c" "\<not> t2 > confirmationDeadline b"
        "holdsOverlapping u c s \<or> \<not> availableSlots c > 0"
    | (promoted) "\<not> hasStarted t1 c" "\<not> t2 > confirmationDeadline b"
        "\<not> holdsOverlapping u c s" "availableSlots c > 0"
    by blast
  then show ?thesis
  proof cases
    case started
    from confirm_started [OF wf b st c started, of t2 t3] obtain bs' where
      r: "confirmWaitlistedBooking bid t1 t2 t3 s =
       (Inl ConfirmStarted, s\<lparr>bookings := bs',
          waitlists := map_assign ?cn [] (map_index ?cn (waitlists s))\<rparr>)"
      and m: "\<And>k. map_of bs' k =
        (if k \<in> set ?q then map_option (setStatus CANCELED) (map_of (bookings s) k)
         else map_of (bookings s) k)"
      by blast
    let ?s' = "s\<lparr>bookings := bs', waitlists := map_assign ?cn [] (map_index ?cn (waitlists s))\<rparr>"
    have "consistent ?s'"
    proof (rule consistent_step [OF wf])
      fix cn c' assume "map_of (conferences ?s') cn = Some c'"
      with consistent_names [OF wf] show "name c' = cn" by simp
    next
      fix k b' assume "map_of (bookings ?s') k = Some b'"
      then show "\<exists>b. map_of (bookings s) k = Some b \<and> bookingUserId b' = bookingUserId b \<and>
          conferenceName b' = conferenceName b \<and> (status b' = status b \<or> status b' = CANCELED)"
        by (cases "map_of (bookings s) k") (auto simp: m split: if_splits)
    next
      fix k assume "map_of (bookings s) k \<noteq> None"
      then show "map_of (bookings ?s') k \<noteq> None" by (simp add: m)
    next
      fix k b' assume "map_of (bookings ?s') k = Some b'" "status b' = WAITLISTED"
        "k \<in> set (queue_of (conferenceName b') (waitlists s))"
      then show "k \<in> set (queue_of (conferenceName b') (waitlists ?s'))"
        by (cases "map_of (bookings s) k") (auto simp: m split: if_splits)
    qed auto
    with r show ?thesis by simp
  next
    case expired
    let ?uq = "filter (\<lambda>k. k \<noteq> bid) ?q @ [bid]"
    let ?s' = "s\<lparr>waitlists := map_assign ?cn ?uq (map_index ?cn (waitlists s)),
          bookings :=
            (if hasSlotAvailable c
             then map_modify (hd ?uq) (setConfirmationDeadline (t3 + 3600)) (bookings s)
             else bookings s)\<rparr>"
    have "consistent ?s'"
    proof (rule consistent_step [OF wf])
      fix cn c' assume "map_of (conferences ?s') cn = Some c'"
      with consistent_names [OF wf] show "name c' = cn" by simp
    next
      fix k b' assume "map_of (bookings ?s') k = Some b'"
      then show "\<exists>b. map_of (bookings s) k = Some b \<and> bookingUserId b' = bookingUserId b \<and>
          conferenceName b' = conferenceName b \<and> (status b' = status b \<or> status b' = CANCELED)"
        by (cases "map_of (bookings s) k") (auto split: if_splits)
    next
      fix k assume "map_of (bookings s) k \<noteq> None"
      then show "map_of (bookings ?s') k \<noteq> None" by auto
    next
      fix c0 show "set (queue_of c0 (waitlists ?s')) \<subseteq> set (queue_of c0 (waitlists s))"
        using mem by auto
    next
      fix k b' assume "k \<in> set (queue_of (conferenceName b') (waitlists s))"
      then show "k \<in> set (queue_of (conferenceName b') (waitlists ?s'))" by auto
    qed auto
    with confirm_expired [OF wf b st c expired, of t3] show ?thesis by simp
  next
    case rejected
    from confirm_rejected [OF wf b st c rejected(1,2) u rejected(3), of t3] wf
    show ?thesis by simp
  next
    case promoted
    let ?c' = "c\<lparr>availableSlots := availableSlots c - 1\<rparr>"
    let ?s3 = "s\<lparr>conferences := map_modify ?cn (\<lambda>_. ?c') (conferences s),
          waitlists := map_assign ?cn (filter (\<lambda>k. k \<noteq> bid) ?q) (map_index ?cn (waitlists s)),
          bookings := map_modify bid (setStatus CONFIRMED) (bookings s)\<rparr>"
    from confirm_promoted [OF wf b st c promoted(1,2) u promoted(3,4), of t3] obtain cns s4 where
      e: "evicted (bookingUserId b) cns ?s3 s4" and
      r: "confirmWaitlistedBooking bid t1 t2 t3 s = (Inr True, s4)" by blast
    have "consistent ?s3"
    proof (rule consistent_promote [OF wf b st c u promoted(3)])
      fix cn show "map_option window (map_of (conferences ?s3) cn) =
          map_option window (map_of (conferences s) cn)"
        using c by (auto simp: window_def)
    next
      fix c0 show "set (queue_of c0 (waitlists ?s3)) =
          set (queue_of c0 (waitlists s)) - (if c0 = ?cn then {bid} else {})"
        by auto
    qed simp_all
    from consistent_evicted [OF this e] r show ?thesis by simp
  qed
qed

lemma consistent_exec: "consistent s \<Longrightarrow> consistent (snd (exec c s))"
  by (cases c)
    (simp_all add: case_prod_beta consistent_addConference consistent_addUser consistent_bookConference consistent_cancelBooking
      consistent_confirmWaitlistedBooking)

lemma consistent_run_from: "consistent s \<Longrightarrow> consistent (run s cs)"
  by (induction cs arbitrary: s) (simp_all add: consistent_exec)

lemma consistent_run: "consistent (run init cs)"
  by (rule consistent_run_from [OF consistent_init])

section \<open>Keys of the booking table, bounds of the slot counters\<close>

lemma distinct_bookConference:
  assumes wf: "consistent s" and d: "distinct (map fst (bookings s))"
  shows "distinct (map fst (bookings (snd (bookConference uid cn t1 t2 junk s))))"
proof (cases "\<exists>u c. map_of (users s) uid = Some u \<and> map_of (conferences s) cn = Some c \<and>
    \<not> hasStarted t1 c \<and>
    find (\<lambda>(bid, b). bookingUserId b = uid \<and> conferenceName b = cn \<and> status b \<noteq> CANCELED)
      (bookings s) = None \<and> \<not> holdsOverlapping u c s")
  case False
  then have "snd (bookConference uid cn t1 t2 junk s) = s"
    by (subst book_failed [OF wf]) (auto split: option.splits)
  with d show ?thesis by simp
next
  case True
  then obtain u c where u: "map_of (users s) uid = Some u"
    and c: "map_of (conferences s) cn = Some c" and ns: "\<not> hasStarted t1 c"
    and nd: "find (\<lambda>(bid, b). bookingUserId b = uid \<and> conferenceName b = cn \<and>
                   status b \<noteq> CANCELED) (bookings s) = None"
    and nh: "\<not> holdsOverlapping u c s" by blast
  show ?thesis
  proof (cases "availableSlots c > 0")
    case False
    from book_waitlisted [OF wf u c ns nd nh False, of t2 junk] d show ?thesis
      by (simp add: distinct_map_emplace)
  next
    case True
    from book_confirmed [OF wf u c ns nd nh True, of t2 junk] obtain s2 where
      k: "map fst (bookings s2) = map fst (bookings s)"
      and r: "snd (bookConference uid cn t1 t2 junk s) =
        s2\<lparr>bookings := map_emplace (bookingId (newBooking uid cn t2 junk))
                          (setStatus CONFIRMED (newBooking uid cn t2 junk)) (bookings s2),
            users := map_modify uid (addBooking (bookingId (newBooking uid cn t2 junk)) CONFIRMED)
                       (users s2)\<rparr>"
      by auto
    from k d have "distinct (map fst (bookings s2))" by simp
    then show ?thesis unfolding r by (simp add: distinct_map_emplace)
  qed
qed

lemma distinct_cancelBooking:
  assumes wf: "consistent s" and d: "distinct (map fst (bookings s))"
  shows "distinct (map fst (bookings (snd (cancelBooking bid t1 t2 s))))"
proof (cases "\<exists>b c. map_of (bookings s) bid = Some b \<and> status b \<noteq> CANCELED \<and>
    map_of (conferences s) (conferenceName b) = Some c \<and> \<not> hasStarted t1 c")
  case False
  then have "snd (cancelBooking bid t1 t2 s) = s"
    by (subst cancel_failed [OF wf]) (auto split: option.splits)
  with d show ?thesis by simp
next
  case True
  then obtain b c where b: "map_of (bookings s) bid = Some b" and nc: "status b \<noteq> CANCELED"
    and c: "map_of (conferences s) (conferenceName b) = Some c" and ns: "\<not> hasStarted t1 c"
    by blast
  show ?thesis
  proof (cases "status b = CONFIRMED")
    case True
    show ?thesis
      unfolding cancel_confirmed [OF wf b True c ns] using d by (simp split: list.splits)
  next
    case False
    with nc have st: "status b = WAITLISTED" by (cases "status b") auto
    show ?thesis
      unfolding cancel_waitlisted [OF wf b st c ns] using d by simp
  qed
qed

lemma distinct_confirmWaitlistedBooking:
  assumes wf: "consistent s" and d: "distinct (map fst (bookings s))"
  shows "distinct (map fst (bookings (snd (confirmWaitlistedBooking bid t1 t2 t3 s))))"
proof (cases "\<exists>b. map_of (bookings s) bid = Some b \<and> status b = WAITLISTED")
  case False
  then have "snd (confirmWaitlistedBooking bid t1 t2 t3 s) = s"
    by (subst confirm_failed) (auto split: option.splits)
  with d show ?thesis by simp
next
  case True
  then obtain b where b: "map_of (bookings s) bid = Some b" and st: "status b = WAITLISTED"
    by blast
  from consistent_conf_known [OF wf b] obtain c where c: "map_of (conferences s) (conferenceName b) = Some c"
    by blast
  from consistent_user_known [OF wf b] obtain u where u: "map_of (users s) (bookingUserId b) = Some u"
    by blast
  consider (started) "hasStarted t1 c"
    | (expired) "\<not> hasStarted t1 c" "t2 > confirmationDeadline b"
    | (rejected) "\<not> hasStarted t1 c" "\<not> t2 > confirmationDeadline b"
        "holdsOverlapping u c s \<or> \<not> availableSlots c > 0"
    | (promoted) "\<not> hasStarted t1 c" "\<not> t2 > confirmationDeadline b"
        "\<not> holdsOverlapping u c s" "availableSlots c > 0"
    by blast
  then show ?thesis
  proof cases
    case started
    from confirm_started [OF wf b st c started, of t2 t3] d show ?thesis by auto
  next
    case expired
    from confirm_expired [OF wf b st c expired, of t3] d show ?thesis by simp
  next
    case rejected
    from confirm_rejected [OF wf b st c rejected(1,2) u rejected(3), of t3] d
    show ?thesis by simp
  next
    case promoted
    from confirm_promoted [OF wf b st c promoted(1,2) u promoted(3,4), of t3] d
    show ?thesis by auto
  qed
qed

lemma distinct_exec:
  "consistent s \<Longrightarrow> distinct (map fst (bookings s)) \<Longrightarrow>
   distinct (map fst (bookings (snd (exec c s))))"
proof (cases c)
  case (AddConference n loc ts start en slots)
  assume "distinct (map fst (bookings s))"
  with AddConference show ?thesis
    by (auto simp: addConference_def split: option.splits sum.splits)
next
  case (AddUser uid ts)
  assume "distinct (map fst (bookings s))"
  with AddUser show ?thesis
    by (auto simp: addUser_def split: option.splits sum.splits)
qed (simp_all add: case_prod_beta distinct_bookConference distinct_cancelBooking
      distinct_confirmWaitlistedBooking)

lemma distinct_run_from:
  "consistent s \<Longrightarrow> distinct (map fst (bookings s)) \<Longrightarrow>
   distinct (map fst (bookings (run s cs)))"
  by (induction cs arbitrary: s) (simp_all add: distinct_exec consistent_exec)

lemma booking_keys_distinct: "distinct (map fst (bookings (run init cs)))"
  by (rule distinct_run_from [OF consistent_init]) (simp add: init_def)

lemma booking_entries:
  "(k, b) \<in> set (bookings (run init cs)) \<longleftrightarrow> map_of (bookings (run init cs)) k = Some b"
  using booking_keys_distinct [of cs] by simp

lemma slots_bounded_modify:
  assumes "slots_bounded s"
    and "\<And>c. map_of (conferences s) cn = Some c \<Longrightarrow>
           0 \<le> availableSlots (f c) \<and> availableSlots (f c) \<le> totalSlots (f c)"
    and "conferences s' = map_modify cn f (conferences s)"
  shows "slots_bounded s'"
  using assms unfolding slots_bounded_def by (auto split: if_splits)

lemma slots_bounded_same:
  "slots_bounded s \<Longrightarrow> conferences s' = conferences s \<Longrightarrow> slots_bounded s'"
  by (simp add: slots_bounded_def)

lemma slots_addConference:
  assumes "slots_bounded s"
  shows "slots_bounded (snd (addConference n loc ts start end slots s))"
  using assms
  by (auto simp: addConference_def newConference_def slots_bounded_def map_of_map_emplace
      split: option.splits if_splits)

lemma slots_addUser:
  "slots_bounded s \<Longrightarrow> slots_bounded (snd (addUser uid ts s))"
  by (auto simp: addUser_def newUser_def slots_bounded_def split: option.splits if_splits)

lemma slots_bookConference:
  assumes wf: "consistent s" and sb: "slots_bounded s"
  shows "slots_bounded (snd (bookConference uid cn t1 t2 junk s))"
proof (cases "\<exists>u c. map_of (users s) uid = Some u \<and> map_of (conferences s) cn = Some c \<and>
    \<not> hasStarted t1 c \<and>
    find (\<lambda>(bid, b). bookingUserId b = uid \<and> conferenceName b = cn \<and> status b \<noteq> CANCELED)
      (bookings s) = None \<and> \<not> holdsOverlapping u c s")
  case False
  then have "snd (bookConference uid cn t1 t2 junk s) = s"
    by (subst book_failed [OF wf]) (auto split: option.splits)
  with sb show ?thesis by simp
next
  case True
  then obtain u c where u: "map_of (users s) uid = Some u"
    and c: "map_of (conferences s) cn = Some c" and ns: "\<not> hasStarted t1 c"
    and nd: "find (\<lambda>(bid, b). bookingUserId b = uid \<and> conferenceName b = cn \<and>
                   status b \<noteq> CANCELED) (bookings s) = None"
    and nh: "\<not> holdsOverlapping u c s" by blast
  show ?thesis
  proof (cases "availableSlots c > 0")
    case False
    from book_waitlisted [OF wf u c ns nd nh False, of t2 junk] sb show ?thesis
      by (simp add: slots_bounded_def)
  next
    case True
    from book_confirmed [OF wf u c ns nd nh True, of t2 junk] obtain cns s2 where
      e: "evicted uid cns (s\<lparr>conferences :=
        map_modify cn (\<lambda>_. c\<lparr>availableSlots := availableSlots c - 1\<rparr>) (conferences s)\<rparr>) s2"
      and r: "snd (bookConference uid cn t1 t2 junk s) =
        s2\<lparr>bookings := map_emplace (bookingId (newBooking uid cn t2 junk))
                          (setStatus CONFIRMED (newBooking uid cn t2 junk)) (bookings s2),
            users := map_modify uid (addBooking (bookingId (newBooking uid cn t2 junk)) CONFIRMED)
                       (users s2)\<rparr>"
      by auto
    from e have "conferences s2 =
        map_modify cn (\<lambda>_. c\<lparr>availableSlots := availableSlots c - 1\<rparr>) (conferences s)"
      by (simp add: evicted_def)
    then have eq: "conferences (snd (bookConference uid cn t1 t2 junk s)) =
        map_modify cn (\<lambda>_. c\<lparr>availableSlots := availableSlots c - 1\<rparr>) (conferences s)"
      unfolding r by simp
    from sb c have "availableSlots c \<le> totalSlots c" unfolding slots_bounded_def by blast
    with True show ?thesis
      by (intro slots_bounded_modify [OF sb _ eq]) simp
  qed
qed

lemma slots_cancelBooking:
  assumes wf: "consistent s" and sb: "slots_bounded s"
  shows "slots_bounded (snd (cancelBooking bid t1 t2 s))"
proof (cases "\<exists>b c. map_of (bookings s) bid = Some b \<and> status b \<noteq> CANCELED \<and>
    map_of (conferences s) (conferenceName b) = Some c \<and> \<not> hasStarted t1 c")
  case False
  then have "snd (cancelBooking bid t1 t2 s) = s"
    by (subst cancel_failed [OF wf]) (auto split: option.splits)
  with sb show ?thesis by simp
next
  case True
  then obtain b c where b: "map_of (bookings s) bid = Some b" and nc: "status b \<noteq> CANCELED"
    and c: "map_of (conferences s) (conferenceName b) = Some c" and ns: "\<not> hasStarted t1 c"
    by blast
  show ?thesis
  proof (cases "status b = CONFIRMED")
    case True
    have eq: "conferences (snd (cancelBooking bid t1 t2 s)) =
        map_modify (conferenceName b) increaseAvailableSlots (conferences s)"
      unfolding cancel_confirmed [OF wf b True c ns] by simp
    from sb c have "0 \<le> availableSlots c" "availableSlots c \<le> totalSlots c"
      unfolding slots_bounded_def by blast+
    then show ?thesis
      by (intro slots_bounded_modify [OF sb _ eq]) (simp add: c increaseAvailableSlots_def)
  next
    case False
    with nc have st: "status b = WAITLISTED" by (cases "status b") auto
    show ?thesis
      unfolding cancel_waitlisted [OF wf b st c ns] using sb by (simp add: slots_bounded_def)
  qed
qed

lemma slots_confirmWaitlistedBooking:
  assumes wf: "consistent s" and sb: "slots_bounded s"
  shows "slots_bounded (snd (confirmWaitlistedBooking bid t1 t2 t3 s))"
proof (cases "\<exists>b. map_of (bookings s) bid = Some b \<and> status b = WAITLISTED")
  case False
  then have "snd (confirmWaitlistedBooking bid t1 t2 t3 s) = s"
    by (subst confirm_failed) (auto split: option.splits)
  with sb show ?thesis by simp
next
  case True
  then obtain b where b: "map_of (bookings s) bid = Some b" and st: "status b = WAITLISTED"
    by blast
  from consistent_conf_known [OF wf b] obtain c where c: "map_of (conferences s) (conferenceName b) = Some c"
    by blast
  from consistent_user_known [OF wf b] obtain u where u: "map_of (users s) (bookingUserId b) = Some u"
    by blast
  consider (started) "hasStarted t1 c"
    | (expired) "\<not> hasStarted t1 c" "t2 > confirmationDeadline b"
    | (rejected) "\<not> hasStarted t1 c" "\<not> t2 > confirmationDeadline b"
        "holdsOverlapping u c s \<or> \<not> availableSlots c > 0"
    | (promoted) "\<not> hasStarted t1 c" "\<not> t2 > confirmationDeadline b"
        "\<not> holdsOverlapping u c s" "availableSlots c > 0"
    by blast
  then show ?thesis
  proof cases
    case started
    from confirm_started [OF wf b st c started, of t2 t3] sb show ?thesis
      by (auto simp: slots_bounded_def)
  next
    case expired
    from confirm_expired [OF wf b st c expired, of t3] sb show ?thesis
      by (simp add: slots_bounded_def)
  next
    case rejected
    from confirm_rejected [OF wf b st c rejected(1,2) u rejected(3), of t3] sb
    show ?thesis by simp
  next
    case promoted
    from confirm_promoted [OF wf b st c promoted(1,2) u promoted(3,4), of t3] obtain cns s4 where
      e: "evicted (bookingUserId b) cns
       (s\<lparr>conferences := map_modify (conferenceName b)
             (\<lambda>_. c\<lparr>availableSlots := availableSlots c - 1\<rparr>) (conferences s),
          waitlists := map_assign (conferenceName b)
             (filter (\<lambda>k. k \<noteq> bid) (queue_of (conferenceName b) (waitlists s)))
             (map_index (conferenceName b) (waitlists s)),
          bookings := map_modify bid (setStatus CONFIRMED) (bookings s)\<rparr>) s4"
      and r: "confirmWaitlistedBooking bid t1 t2 t3 s = (Inr True, s4)" by blast
    from e have "conferences s4 = map_modify (conferenceName b)
             (\<lambda>_. c\<lparr>availableSlots := availableSlots c - 1\<rparr>) (conferences s)"
      by (simp add: evicted_def)
    then have eq: "conferences (snd (confirmWaitlistedBooking bid t1 t2 t3 s)) =
        map_modify (conferenceName b)
             (\<lambda>_. c\<lparr>availableSlots := availableSlots c - 1\<rparr>) (conferences s)"
      unfolding r by simp
    from sb c have "availableSlots c \<le> totalSlots c" unfolding slots_bounded_def by blast
    with promoted(4) show ?thesis
      by (intro slots_bounded_modify [OF sb _ eq]) simp
  qed
qed

lemma slots_exec:
  "consistent s \<Longrightarrow> slots_bounded s \<Longrightarrow> slots_bounded (snd (exec c s))"
  by (cases c)
    (simp_all add: case_prod_beta slots_addConference slots_addUser slots_bookConference
      slots_cancelBooking slots_confirmWaitlistedBooking)

lemma slots_run_from:
  "consistent s \<Longrightarrow> slots_bounded s \<Longrightarrow> slots_bounded (run s cs)"
  by (induction cs arbitrary: s) (simp_all add: slots_exec consistent_exec)

lemma slots_within_bounds:
  "map_of (conferences (run init cs)) cn = Some c \<Longrightarrow>
   0 \<le> availableSlots c \<and> availableSlots c \<le> totalSlots c"
proof -
  have "slots_bounded init" by (simp add: slots_bounded_def init_def)
  from slots_run_from [OF consistent_init this, of cs] show
    "map_of (conferences (run init cs)) cn = Some c \<Longrightarrow>
     0 \<le> availableSlots c \<and> availableSlots c \<le> totalSlots c"
    unfolding slots_bounded_def by blast
qed

lemma book_error:
  assumes wf: "consistent s" and r: "bookConference uid cn t1 t2 junk s = (Inl e, s')"
  shows "s' = s \<and> e \<noteq> ConfirmStarted \<and> e \<noteq> OutOfRange"
proof (cases "\<exists>u c. map_of (users s) uid = Some u \<and> map_of (conferences s) cn = Some c \<and>
    \<not> hasStarted t1 c \<and>
    find (\<lambda>(bid, b). bookingUserId b = uid \<and> conferenceName b = cn \<and> status b \<noteq> CANCELED)
      (bookings s) = None \<and> \<not> holdsOverlapping u c s")
  case False
  with r show ?thesis
    by (subst (asm) book_failed [OF wf]) (auto split: option.splits if_splits)
next
  case True
  then obtain u c where u: "map_of (users s) uid = Some u"
    and c: "map_of (conferences s) cn = Some c" and ns: "\<not> hasStarted t1 c"
    and nd: "find (\<lambda>(bid, b). bookingUserId b = uid \<and> conferenceName b = cn \<and>
                   status b \<noteq> CANCELED) (bookings s) = None"
    and nh: "\<not> holdsOverlapping u c s" by blast
  show ?thesis
  proof (cases "availableSlots c > 0")
    case True
    from book_confirmed [OF wf u c ns nd nh True, of t2 junk] r show ?thesis by auto
  next
    case False
    from book_waitlisted [OF wf u c ns nd nh False, of t2 junk] r show ?thesis by auto
  qed
qed

lemma cancel_error:
  assumes wf: "consistent s" and r: "cancelBooking bid t1 t2 s = (Inl e, s')"
  shows "s' = s \<and> e \<noteq> ConfirmStarted \<and> e \<noteq> OutOfRange"
proof (cases "\<exists>b c. map_of (bookings s) bid = Some b \<and> status b \<noteq> CANCELED \<and>
    map_of (conferences s) (conferenceName b) = Some c \<and> \<not> hasStarted t1 c")
  case False
  with r consistent_conf_known [OF wf, of bid] show ?thesis
    by (subst (asm) cancel_failed [OF wf]) (auto split: option.splits if_splits)
next
  case True
  then obtain b c where b: "map_of (bookings s) bid = Some b" and nc: "status b \<noteq> CANCELED"
    and c: "map_of (conferences s) (conferenceName b) = Some c" and ns: "\<not> hasStarted t1 c"
    by blast
  show ?thesis
  proof (cases "status b = CONFIRMED")
    case True
    from cancel_confirmed [OF wf b True c ns, of t2] r show ?thesis by simp
  next
    case False
    with nc have st: "status b = WAITLISTED" by (cases "status b") auto
    from cancel_waitlisted [OF wf b st c ns, of t2] r show ?thesis by simp
  qed
qed

lemma confirm_error:
  assumes wf: "consistent s" and r: "confirmWaitlistedBooking bid t1 t2 t3 s = (Inl e, s')"
  shows "e \<noteq> OutOfRange \<and> (e \<noteq> ConfirmStarted \<longrightarrow> s' = s) \<and>
     (e = ConfirmStarted \<longrightarrow>
        (\<exists>b c. map_of (bookings s) bid = Some b \<and> status b = WAITLISTED \<and>
           map_of (conferences s) (conferenceName b) = Some c \<and> hasStarted t1 c \<and>
           conferences s' = conferences s \<and> users s' = users s \<and>
           (\<forall>c0. queue_of c0 (waitlists s') =
              (if c0 = conferenceName b then [] else queue_of c0 (waitlists s))) \<and>
           (\<forall>k. map_of (bookings s') k =
              (if k \<in> set (queue_of (conferenceName b) (waitlists s))
               then map_option (setStatus CANCELED) (map_of (bookings s) k)
               else map_of (bookings s) k))))"
proof (cases "\<exists>b. map_of (bookings s) bid = Some b \<and> status b = WAITLISTED")
  case False
  with r show ?thesis
    by (subst (asm) confirm_failed) (auto split: option.splits if_splits)
next
  case True
  then obtain b where b: "map_of (bookings s) bid = Some b" and st: "status b = WAITLISTED"
    by blast
  from consistent_conf_known [OF wf b] obtain c where c: "map_of (conferences s) (conferenceName b) = Some c"
    by blast
  from consistent_user_known [OF wf b] obtain u where u: "map_of (users s) (bookingUserId b) = Some u"
    by blast
  consider (started) "hasStarted t1 c"
    | (expired) "\<not> hasStarted t1 c" "t2 > confirmationDeadline b"
    | (rejected) "\<not> hasStarted t1 c" "\<not> t2 > confirmationDeadline b"
        "holdsOverlapping u c s \<or> \<not> availableSlots c > 0"
    | (promoted) "\<not> hasStarted t1 c" "\<not> t2 > confirmationDeadline b"
        "\<not> holdsOverlapping u c s" "availableSlots c > 0"
    by blast
  then show ?thesis
  proof cases
    case started
    from confirm_started [OF wf b st c started, of t2 t3] obtain bs' where
      r': "confirmWaitlistedBooking bid t1 t2 t3 s =
       (Inl ConfirmStarted, s\<lparr>bookings := bs',
          waitlists := map_assign (conferenceName b) []
             (map_index (conferenceName b) (waitlists s))\<rparr>)"
      and m: "\<forall>k. map_of bs' k =
        (if k \<in> set (queue_of (conferenceName b) (waitlists s))
         then map_option (setStatus CANCELED) (map_of (bookings s) k)
         else map_of (bookings s) k)"
      by blast
    from r r' have e: "e = ConfirmStarted" and s': "s' = s\<lparr>bookings := bs',
          waitlists := map_assign (conferenceName b) []
             (map_index (conferenceName b) (waitlists s))\<rparr>" by simp_all
    have "\<forall>c0. queue_of c0 (waitlists s') =
              (if c0 = conferenceName b then [] else queue_of c0 (waitlists s))"
      unfolding s' by simp
    moreover have "conferences s' = conferences s" "users s' = users s" "bookings s' = bs'"
      unfolding s' by simp_all
    ultimately show ?thesis using e b st c started m by auto
  next
    case expired
    from confirm_expired [OF wf b st c expired, of t3] r show ?thesis by simp
  next
    case rejected
    from confirm_rejected [OF wf b st c rejected(1,2) u rejected(3), of t3] r
    show ?thesis by (auto split: if_splits)
  next
    case promoted
    from confirm_promoted [OF wf b st c promoted(1,2) u promoted(3,4), of t3] r
    show ?thesis by auto
  qed
qed

lemma getBookingStatus_error:
  assumes wf: "consistent s" and r: "getBookingStatus bid s = Inl e"
  shows "e = BookingNotFound"
  using r consistent_conf_known [OF wf, of bid]
  by (auto simp: getBookingStatus_def split: option.splits if_splits)

lemma addConference_error:
  "addConference n loc ts start end slots s = (Inl e, s') \<Longrightarrow>
   s' = s \<and> e \<noteq> ConfirmStarted \<and> e \<noteq> OutOfRange"
  by (auto simp: addConference_def newConference_def split: option.splits if_splits)

lemma addUser_error:
  "addUser uid ts s = (Inl e, s') \<Longrightarrow> s' = s \<and> e \<noteq> ConfirmStarted \<and> e \<noteq> OutOfRange"
  by (auto simp: addUser_def newUser_def split: option.splits if_splits)

lemma find_None_set:
  "find P xs = None \<longleftrightarrow> (\<forall>x\<in>set xs. \<not> P x)"
  by (induction xs) auto


section \<open>The overlap test\<close>


text \<open>
  C8. For every conference and every pair of timestamps, \<open>isTimeOverlapping\<close> is true iff
  NOT (end \<le> selfStart OR start \<ge> selfEnd); the test gives the same answer whichever of two
  conferences is asked about the window of the other; and two windows that touch at a
  boundary, one ending exactly when the other starts, do not overlap.
\<close>

theorem isTimeOverlapping_half_open:
  "(isTimeOverlapping c start end \<longleftrightarrow> \<not> (end \<le> startTime c \<or> start \<ge> endTime c)) \<and>
   (isTimeOverlapping c1 (startTime c2) (endTime c2) \<longleftrightarrow>
      isTimeOverlapping c2 (startTime c1) (endTime c1)) \<and>
   (endTime c1 = startTime c2 \<longrightarrow>
      \<not> isTimeOverlapping c1 (startTime c2) (endTime c2) \<and>
      \<not> isTimeOverlapping c2 (startTime c1) (endTime c1))"
  by (auto simp: isTimeOverlapping_def)

theorem isTimeOverlapping_half_open_witness:
  "endTime \<lparr>name = ''C1'', location = ''NY'', topics = [], startTime = 1800003600,
      endTime = 1800010800, totalSlots = 1, availableSlots = 1\<rparr> =
   startTime \<lparr>name = ''C2'', location = ''NY'', topics = [], startTime = 1800010800,
      endTime = 1800018000, totalSlots = 1, availableSlots = 1\<rparr> \<and>
   \<not> isTimeOverlapping
      \<lparr>name = ''C1'', location = ''NY'', topics = [], startTime = 1800003600,
        endTime = 1800010800, totalSlots = 1, availableSlots = 1\<rparr> 1800010800 1800018000 \<and>
   \<not> isTimeOverlapping
      \<lparr>name = ''C2'', location = ''NY'', topics = [], startTime = 1800010800,
        endTime = 1800018000, totalSlots = 1, availableSlots = 1\<rparr> 1800003600 1800010800"
  using isTimeOverlapping_half_open
    [of "\<lparr>name = ''C1'', location = ''NY'', topics = [], startTime = 1800003600,
          endTime = 1800010800, totalSlots = 1, availableSlots = 1\<rparr>"
        0 0
        "\<lparr>name = ''C1'', location = ''NY'', topics = [], startTime = 1800003600,
          endTime = 1800010800, totalSlots = 1, availableSlots = 1\<rparr>"
        "\<lparr>name = ''C2'', location = ''NY'', topics = [], startTime = 1800010800,
          endTime = 1800018000, totalSlots = 1, availableSlots = 1\<rparr>"]
  by simp

section \<open>No double booking\<close>

text \<open>
  C2. After every sequence of calls, two different entries of the booking table that belong
  to one user and are both CONFIRMED are bookings of conferences whose windows do not
  overlap.
\<close>

theorem confirmed_bookings_never_overlap:
  assumes "(k1, b1) \<in> set (bookings (run init cs))"
    and "(k2, b2) \<in> set (bookings (run init cs))"
    and "k1 \<noteq> k2"
    and "bookingUserId b1 = bookingUserId b2"
    and "status b1 = CONFIRMED" and "status b2 = CONFIRMED"
    and "map_of (conferences (run init cs)) (conferenceName b1) = Some c1"
    and "map_of (conferences (run init cs)) (conferenceName b2) = Some c2"
  shows "\<not> isTimeOverlapping c1 (startTime c2) (endTime c2)"
proof -
  have "no_overlap (run init cs)" using consistent_run [of cs] by (simp add: consistent_def)
  moreover from assms(1,2) have "map_of (bookings (run init cs)) k1 = Some b1"
    "map_of (bookings (run init cs)) k2 = Some b2"
    by (simp_all add: booking_entries)
  ultimately show ?thesis using assms(3-8) unfolding no_overlap_def by blast
qed

theorem confirmed_bookings_never_overlap_witness:
  "(''u_P_1800000000'',
    \<lparr>bookingId = ''u_P_1800000000'', bookingUserId = ''u'', conferenceName = ''P'',
       status = CONFIRMED, confirmationDeadline = 0\<rparr>) \<in> set (bookings (run init back_to_back_calls)) \<and>
   (''u_Q_1800000001'',
    \<lparr>bookingId = ''u_Q_1800000001'', bookingUserId = ''u'', conferenceName = ''Q'',
       status = CONFIRMED, confirmationDeadline = 0\<rparr>) \<in> set (bookings (run init back_to_back_calls)) \<and>
   ''u_P_1800000000'' \<noteq> ''u_Q_1800000001'' \<and>
   map_of (conferences (run init back_to_back_calls)) ''P'' =
     Some \<lparr>name = ''P'', location = ''NY'', topics = [], startTime = 1800003600,
            endTime = 1800010800, totalSlots = 1, availableSlots = 0\<rparr> \<and>
   map_of (conferences (run init back_to_back_calls)) ''Q'' =
     Some \<lparr>name = ''Q'', location = ''NY'', topics = [], startTime = 1800010800,
            endTime = 1800018000, totalSlots = 1, availableSlots = 0\<rparr> \<and>
   \<not> isTimeOverlapping
       \<lparr>name = ''P'', location = ''NY'', topics = [], startTime = 1800003600,
          endTime = 1800010800, totalSlots = 1, availableSlots = 0\<rparr>
       1800010800 1800018000"
  using confirmed_bookings_never_overlap
    [of "''u_P_1800000000''"
        "\<lparr>bookingId = ''u_P_1800000000'', bookingUserId = ''u'', conferenceName = ''P'',
           status = CONFIRMED, confirmationDeadline = 0\<rparr>"
        back_to_back_calls
        "''u_Q_1800000001''"
        "\<lparr>bookingId = ''u_Q_1800000001'', bookingUserId = ''u'', conferenceName = ''Q'',
           status = CONFIRMED, confirmationDeadline = 0\<rparr>"
        "\<lparr>name = ''P'', location = ''NY'', topics = [], startTime = 1800003600,
           endTime = 1800010800, totalSlots = 1, availableSlots = 0\<rparr>"
        "\<lparr>name = ''Q'', location = ''NY'', topics = [], startTime = 1800010800,
           endTime = 1800018000, totalSlots = 1, availableSlots = 0\<rparr>"]
  unfolding back_to_back_state by simp

section \<open>When bookConference reports a conflict\<close>



section \<open>Booking ids that collide\<close>


text \<open>
  C9. There is an execution in which a user books a conference, cancels that booking and
  books the same conference again while the clock still reads the same second: the second
  call generates and returns the id of the first, the booking table keeps the old CANCELED
  booking under that id (\<^verbatim>\<open>emplace\<close> inserts nothing), and yet the slot of the conference is
  taken again and the ledger of the user records the id as CONFIRMED.
\<close>

theorem rebook_same_second_collides:
  "fst (exec (rebook_calls ! 2) (run init (take 2 rebook_calls))) =
     Inr (BookingIdOf ''u_X_1800000000'') \<and>
   fst (exec (rebook_calls ! 3) (run init (take 3 rebook_calls))) = Inr (Flag True) \<and>
   fst (exec (rebook_calls ! 4) (run init (take 4 rebook_calls))) =
     Inr (BookingIdOf ''u_X_1800000000'') \<and>
   map_option status (map_of (bookings (run init (take 4 rebook_calls))) ''u_X_1800000000'') =
     Some CANCELED \<and>
   bookings (run init rebook_calls) = bookings (run init (take 4 rebook_calls)) \<and>
   map_option availableSlots (map_of (conferences (run init (take 4 rebook_calls))) ''X'') =
     Some 1 \<and>
   map_option availableSlots (map_of (conferences (run init rebook_calls)) ''X'') = Some 0 \<and>
   map_option getActiveBookings (map_of (users (run init rebook_calls)) ''u'') =
     Some [''u_X_1800000000'']"
  unfolding rebook_booked rebook_canceled rebook_final
  by (simp add: rebook_calls_def model_defs)

section \<open>Slots and confirmed bookings\<close>


text \<open>
  C1 asks that the number of CONFIRMED bookings of a conference is always
  \<open>totalSlots - availableSlots\<close>. After the execution \<open>rebook_calls\<close> the conference X has one
  slot in all and none available, and no booking of X is CONFIRMED. (The other half of C1,
  \<open>0 \<le> availableSlots \<le> totalSlots\<close>, holds after every sequence of calls:
  \<open>slots_within_bounds\<close>.)
\<close>

theorem rebook_breaks_slot_count:
  "map_option (\<lambda>c. totalSlots c - availableSlots c)
     (map_of (conferences (run init rebook_calls)) ''X'') = Some 1 \<and>
   confirmedCount ''X'' (run init rebook_calls) = 0"
  unfolding rebook_final by (simp add: confirmedCount_def)

section \<open>Ledgers and the booking table\<close>


text \<open>
  C4 asks that the status a ledger stores for a booking id is the status of that booking in
  the booking table. After the execution \<open>promote_calls\<close> the booking of B is CONFIRMED in the
  table and WAITLISTED in the ledger of B.
\<close>

theorem promotion_leaves_ledger_behind:
  "map_option status (map_of (bookings (run init promote_calls)) ''B_C_1800000001'') =
     Some CONFIRMED \<and>
   map_option (\<lambda>u. map_of (bookingStatuses u) ''B_C_1800000001'')
     (map_of (users (run init promote_calls)) ''B'') = Some (Some WAITLISTED)"
  unfolding promote_final by simp

section \<open>Calls on a conference that has started\<close>

text \<open>
  After \<open>freed_calls\<close> the conference C has its one slot available, the booking of B is
  WAITLISTED, first in the waitlist of C, with the deadline 1800003602. The calls below are
  made at 1800003700, when C has started (at 1800003600) and the deadline has passed.
\<close>


subsection \<open>Failing calls\<close>

text \<open>
  Against C3: confirmWaitlistedBooking fails with "Cannot confirm booking after conference
  has started", an InvalidState error, and has by then set the booking of B to CANCELED and
  emptied the waitlist of C.
\<close>

theorem confirm_after_start_mutates:
  "map_sum kind_of id
     (fst (exec (ConfirmWaitlistedBooking ''B_C_1800000001'' 1800003700 1800003700 1800003700)
        (run init freed_calls))) = Inl InvalidState \<and>
   snd (exec (ConfirmWaitlistedBooking ''B_C_1800000001'' 1800003700 1800003700 1800003700)
        (run init freed_calls)) \<noteq> run init freed_calls"
  unfolding freed_state by (simp add: model_defs)

text \<open>
  C3, amended. A call that fails after any sequence of calls leaves the conference table, the
  booking table, the ledgers and the waitlists as they were, with one exception:
  confirmWaitlistedBooking on a WAITLISTED booking whose conference has started fails with
  "Cannot confirm booking after conference has started" after it has emptied the waitlist
  of that conference and set every booking that was in it to CANCELED; the conference
  table, the users and the other waitlists are as before.
\<close>

theorem failed_call_state:
  assumes "exec call (run init cs) = (Inl e, s')"
  shows "(e \<noteq> ConfirmStarted \<longrightarrow> s' = run init cs) \<and>
     (e = ConfirmStarted \<longrightarrow>
        (\<exists>bid t1 t2 t3 b c. call = ConfirmWaitlistedBooking bid t1 t2 t3 \<and>
           map_of (bookings (run init cs)) bid = Some b \<and> status b = WAITLISTED \<and>
           map_of (conferences (run init cs)) (conferenceName b) = Some c \<and> hasStarted t1 c \<and>
           conferences s' = conferences (run init cs) \<and> users s' = users (run init cs) \<and>
           (\<forall>c0. queue_of c0 (waitlists s') =
              (if c0 = conferenceName b then [] else queue_of c0 (waitlists (run init cs)))) \<and>
           (\<forall>k. map_of (bookings s') k =
              (if k \<in> set (queue_of (conferenceName b) (waitlists (run init cs)))
               then map_option (setStatus CANCELED) (map_of (bookings (run init cs)) k)
               else map_of (bookings (run init cs)) k))))"
proof (cases call)
  case (AddConference n loc ts start en slots)
  with assms addConference_error [of n loc ts start en slots "run init cs" e s']
  show ?thesis by (auto split: prod.splits sum.splits simp: map_sum_def)
next
  case (AddUser uid ts)
  with assms addUser_error [of uid ts "run init cs" e s']
  show ?thesis by (auto split: prod.splits sum.splits simp: map_sum_def)
next
  case (BookConference uid cn t1 t2 junk)
  with assms book_error [OF consistent_run, of uid cn t1 t2 junk cs e s']
  show ?thesis by (auto split: prod.splits sum.splits simp: map_sum_def)
next
  case (CancelBooking bid t1 t2)
  with assms cancel_error [OF consistent_run, of bid t1 t2 cs e s']
  show ?thesis by (auto split: prod.splits sum.splits simp: map_sum_def)
next
  case (ConfirmWaitlistedBooking bid t1 t2 t3)
  with assms have "confirmWaitlistedBooking bid t1 t2 t3 (run init cs) = (Inl e, s')"
    by (auto split: prod.splits sum.splits simp: map_sum_def)
  from confirm_error [OF consistent_run this] ConfirmWaitlistedBooking show ?thesis by blast
next
  case (GetBookingStatus bid)
  with assms getBookingStatus_error [OF consistent_run, of bid cs e]
  show ?thesis by (auto split: sum.splits simp: map_sum_def)
qed

theorem failed_call_state_witness:
  "exec (BookConference ''D'' ''C'' 1800003700 1800003700 0) (run init freed_calls) =
     (Inl BookStarted, run init freed_calls) \<and>
   exec (ConfirmWaitlistedBooking ''B_C_1800000001'' 1800003700 1800003700 1800003700)
     (run init freed_calls) =
     (Inl ConfirmStarted,
      run init freed_calls
        \<lparr>bookings := map_modify ''B_C_1800000001'' (setStatus CANCELED)
             (bookings (run init freed_calls)),
          waitlists := [(''C'', [])]\<rparr>) \<and>
   queue_of ''C'' (waitlists (run init freed_calls)) = [''B_C_1800000001'']"
  using failed_call_state
    [of "BookConference ''D'' ''C'' 1800003700 1800003700 0" freed_calls BookStarted
        "run init freed_calls"]
    failed_call_state
    [of "ConfirmWaitlistedBooking ''B_C_1800000001'' 1800003700 1800003700 1800003700"
        freed_calls ConfirmStarted
        "run init freed_calls
           \<lparr>bookings := map_modify ''B_C_1800000001'' (setStatus CANCELED)
                (bookings (run init freed_calls)),
             waitlists := [(''C'', [])]\<rparr>"]
  unfolding freed_state by (simp add: model_defs)

subsection \<open>A deadline that has passed\<close>

text \<open>
  Against C6: the booking of B is WAITLISTED and its deadline has passed, yet
  confirmWaitlistedBooking raises an error instead of returning false, and the booking is
  CANCELED afterwards.
\<close>

theorem expired_after_start_raises:
  "map_option status (map_of (bookings (run init freed_calls)) ''B_C_1800000001'') =
     Some WAITLISTED \<and>
   map_option confirmationDeadline
     (map_of (bookings (run init freed_calls)) ''B_C_1800000001'') = Some 1800003602 \<and>
   (1800003602 :: int) < 1800003700 \<and>
   fst (exec (ConfirmWaitlistedBooking ''B_C_1800000001'' 1800003700 1800003700 1800003700)
        (run init freed_calls)) = Inl ConfirmStarted \<and>
   map_option status
     (map_of (bookings (snd (exec
        (ConfirmWaitlistedBooking ''B_C_1800000001'' 1800003700 1800003700 1800003700)
        (run init freed_calls)))) ''B_C_1800000001'') = Some CANCELED"
  unfolding freed_state by (simp add: model_defs)

text \<open>
  C6, amended. For a WAITLISTED booking whose conference has not started and whose deadline
  has passed (\<open>confirmationDeadline < now\<close>), after any sequence of calls,
  confirmWaitlistedBooking returns false and raises nothing; the booking is still
  WAITLISTED; it was in the waitlist of its conference and is now at its tail, the other ids
  keeping their order; and when the conference has an available slot, the booking now at the
  head of that waitlist has the deadline \<open>now + 3600\<close>, \<open>now\<close> being the clock read by the
  promotion trigger.
\<close>

theorem expired_confirmation_requeues:
  assumes b: "map_of (bookings (run init cs)) bid = Some b"
    and st: "status b = WAITLISTED"
    and c: "map_of (conferences (run init cs)) (conferenceName b) = Some c"
    and ns: "\<not> hasStarted t1 c"
    and ex: "confirmationDeadline b < t2"
  shows "fst (confirmWaitlistedBooking bid t1 t2 t3 (run init cs)) = Inr False \<and>
     map_option status
       (map_of (bookings (snd (confirmWaitlistedBooking bid t1 t2 t3 (run init cs)))) bid) =
       Some WAITLISTED \<and>
     bid \<in> set (queue_of (conferenceName b) (waitlists (run init cs))) \<and>
     queue_of (conferenceName b)
       (waitlists (snd (confirmWaitlistedBooking bid t1 t2 t3 (run init cs)))) =
       filter (\<lambda>k. k \<noteq> bid) (queue_of (conferenceName b) (waitlists (run init cs))) @ [bid] \<and>
     (hasSlotAvailable c \<longrightarrow>
        map_option confirmationDeadline
          (map_of (bookings (snd (confirmWaitlistedBooking bid t1 t2 t3 (run init cs))))
             (hd (queue_of (conferenceName b)
                (waitlists (snd (confirmWaitlistedBooking bid t1 t2 t3 (run init cs))))))) =
        Some (t3 + 3600))"
proof -
  let ?s = "run init cs"
  let ?cn = "conferenceName b"
  let ?q = "queue_of ?cn (waitlists ?s)"
  let ?uq = "filter (\<lambda>k. k \<noteq> bid) ?q @ [bid]"
  note wf = consistent_run [of cs]
  from wf b st have mem: "bid \<in> set ?q" unfolding consistent_def waiting_queued_def by blast
  have "hd ?uq \<in> set ?q"
  proof (cases "filter (\<lambda>k. k \<noteq> bid) ?q")
    case Nil
    with mem show ?thesis by simp
  next
    case (Cons h r)
    then have "set (h # r) \<subseteq> set ?q" by (metis filter_is_subset)
    moreover from Cons have "hd ?uq = h" by simp
    ultimately show ?thesis by simp
  qed
  with wf obtain bh where bh: "map_of (bookings ?s) (hd ?uq) = Some bh"
    unfolding consistent_def queued_known_def by blast
  note r = confirm_expired [OF wf b st c ns, of t2 t3]
  show ?thesis
    unfolding r [OF ex] using b st bh mem by (simp del: hd_append2 hd_append)
qed

theorem expired_confirmation_requeues_witness:
  "map_option (\<lambda>b. (status b, conferenceName b, confirmationDeadline b < 1800004000))
     (map_of (bookings (run init late_start_calls)) ''B_C_1800000001'') =
     Some (WAITLISTED, ''C'', True) \<and>
   map_option (\<lambda>c. (hasStarted 1800004000 c, hasSlotAvailable c))
     (map_of (conferences (run init late_start_calls)) ''C'') = Some (False, True) \<and>
   queue_of ''C'' (waitlists (run init late_start_calls)) =
     [''B_C_1800000001'', ''D_C_1800000002''] \<and>
   fst (confirmWaitlistedBooking ''B_C_1800000001'' 1800004000 1800004000 1800004000
     (run init late_start_calls)) = Inr False \<and>
   queue_of ''C'' (waitlists (snd (confirmWaitlistedBooking ''B_C_1800000001''
     1800004000 1800004000 1800004000 (run init late_start_calls)))) =
     [''D_C_1800000002'', ''B_C_1800000001''] \<and>
   map_option (\<lambda>b. (status b, confirmationDeadline b))
     (map_of (bookings (snd (confirmWaitlistedBooking ''B_C_1800000001''
        1800004000 1800004000 1800004000 (run init late_start_calls)))) ''D_C_1800000002'') =
     Some (WAITLISTED, 1800007600)"
  using expired_confirmation_requeues
    [of late_start_calls "''B_C_1800000001''"
        "\<lparr>bookingId = ''B_C_1800000001'', bookingUserId = ''B'', conferenceName = ''C'',
           status = WAITLISTED, confirmationDeadline = 1800003603\<rparr>"
        "\<lparr>name = ''C'', location = ''NY'', topics = [], startTime = 1800020000,
           endTime = 1800030000, totalSlots = 1, availableSlots = 1\<rparr>"
        1800004000 1800004000 1800004000]
  unfolding late_start_state by (simp add: model_defs)

subsection \<open>A free slot and a waitlist\<close>

text \<open>
  Against C10: C has an available slot and a waitlist that is not empty, D is registered and
  has no booking at all, yet bookConference fails and reserves nothing.
\<close>

theorem book_started_conference_fails:
  "map_option availableSlots (map_of (conferences (run init freed_calls)) ''C'') = Some 1 \<and>
   queue_of ''C'' (waitlists (run init freed_calls)) = [''B_C_1800000001''] \<and>
   map_option getActiveBookings (map_of (users (run init freed_calls)) ''D'') = Some [] \<and>
   map (bookingUserId \<circ> snd) (bookings (run init freed_calls)) = [''A'', ''B''] \<and>
   exec (BookConference ''D'' ''C'' 1800003700 1800003700 0) (run init freed_calls) =
     (Inl BookStarted, run init freed_calls)"
  unfolding freed_state by (simp add: model_defs)

text \<open>
  C10, amended. After any sequence of calls, when a conference that has not started has an
  available slot, a registered user has no booking of it that is not CANCELED and holds no
  overlapping CONFIRMED booking, and the id that the call generates is not yet a key of the
  booking table, bookConference returns that id, the booking table has it as a CONFIRMED
  booking, the conference has one slot less, and the waitlist of the conference is what it
  was: nothing that waits there is looked at.
\<close>

theorem bookConference_takes_free_slot:
  assumes u: "map_of (users (run init cs)) uid = Some u"
    and c: "map_of (conferences (run init cs)) cn = Some c"
    and ns: "\<not> hasStarted t1 c"
    and av: "availableSlots c > 0"
    and nd: "\<forall>(k, b)\<in>set (bookings (run init cs)).
          \<not> (bookingUserId b = uid \<and> conferenceName b = cn \<and> status b \<noteq> CANCELED)"
    and nh: "\<not> holdsOverlapping u c (run init cs)"
    and fresh: "map_of (bookings (run init cs)) (bookingId (newBooking uid cn t2 junk)) = None"
  shows "fst (bookConference uid cn t1 t2 junk (run init cs)) =
       Inr (bookingId (newBooking uid cn t2 junk)) \<and>
     map_of (bookings (snd (bookConference uid cn t1 t2 junk (run init cs))))
       (bookingId (newBooking uid cn t2 junk)) = Some (setStatus CONFIRMED (newBooking uid cn t2 junk)) \<and>
     map_option availableSlots
       (map_of (conferences (snd (bookConference uid cn t1 t2 junk (run init cs)))) cn) =
       Some (availableSlots c - 1) \<and>
     queue_of cn (waitlists (snd (bookConference uid cn t1 t2 junk (run init cs)))) =
       queue_of cn (waitlists (run init cs))"
proof -
  let ?s = "run init cs"
  let ?nb = "newBooking uid cn t2 junk"
  let ?bid = "bookingId ?nb"
  let ?c' = "c\<lparr>availableSlots := availableSlots c - 1\<rparr>"
  let ?s1 = "?s\<lparr>conferences := map_modify cn (\<lambda>_. ?c') (conferences ?s)\<rparr>"
  note wf = consistent_run [of cs]
  from nd have nd': "find (\<lambda>(bid, b). bookingUserId b = uid \<and> conferenceName b = cn \<and>
                   status b \<noteq> CANCELED) (bookings ?s) = None"
    by (auto simp: find_None_set)
  from book_confirmed [OF wf u c ns nd' nh av, of t2 junk] obtain cns s2 where
    cns: "cn \<notin> set cns" and e: "evicted uid cns ?s1 s2" and
    r: "bookConference uid cn t1 t2 junk ?s =
       (Inr ?bid, s2\<lparr>bookings := map_emplace ?bid (setStatus CONFIRMED ?nb) (bookings s2),
            users := map_modify uid (addBooking ?bid CONFIRMED) (users s2)\<rparr>)"
    by blast
  note e' = e [unfolded evicted_def]
  from e' have cs2: "conferences s2 = conferences ?s1" by simp
  from e' have "map_of (bookings s2) ?bid =
         (if owned_by (bookings ?s1) uid ?bid \<and>
             (\<exists>c\<in>set cns. ?bid \<in> set (queue_of c (waitlists ?s1)))
          then map_option (setStatus CANCELED) (map_of (bookings ?s1) ?bid)
          else map_of (bookings ?s1) ?bid)" by blast
  with fresh have f2: "map_of (bookings s2) ?bid = None" by simp
  from e' cns have q2: "queue_of cn (waitlists s2) = queue_of cn (waitlists ?s1)"
    by (metis (full_types))
  show ?thesis
    unfolding r using f2 q2 c by (simp add: cs2 map_of_map_emplace)
qed

theorem bookConference_takes_free_slot_witness:
  "queue_of ''C'' (waitlists (run init freed_calls)) = [''B_C_1800000001''] \<and>
   map_option availableSlots (map_of (conferences (run init freed_calls)) ''C'') = Some 1 \<and>
   fst (bookConference ''D'' ''C'' 1800000003 1800000003 0 (run init freed_calls)) =
     Inr ''D_C_1800000003'' \<and>
   map_option status
     (map_of (bookings (snd (bookConference ''D'' ''C'' 1800000003 1800000003 0
        (run init freed_calls)))) ''D_C_1800000003'') = Some CONFIRMED \<and>
   map_option availableSlots
     (map_of (conferences (snd (bookConference ''D'' ''C'' 1800000003 1800000003 0
        (run init freed_calls)))) ''C'') = Some 0 \<and>
   queue_of ''C'' (waitlists (snd (bookConference ''D'' ''C'' 1800000003 1800000003 0
     (run init freed_calls)))) = [''B_C_1800000001'']"
  using bookConference_takes_free_slot
    [of freed_calls "''D''"
        "\<lparr>userId = ''D'', interestedTopics = [], bookingStatuses = []\<rparr>"
        "''C''"
        "\<lparr>name = ''C'', location = ''NY'', topics = [], startTime = 1800003600,
           endTime = 1800010800, totalSlots = 1, availableSlots = 1\<rparr>"
        1800000003 1800000003 0]
  unfolding freed_state by (simp add: model_defs holdsOverlapping_def)

section \<open>The order of promotion\<close>

text \<open>
  C5 asks that, as long as no deadline expires, the booking waitlisted first for a conference
  is the first of its waitlist to be promoted. After \<open>two_waiting_calls\<close> the waitlist of C
  is B's booking, then D's; the slot is free and B's booking has the deadline 1800003603. At
  1800000004 no deadline has passed, and confirmWaitlistedBooking promotes D's booking while
  B's, waitlisted first, still waits. The deadline of D's booking was never set: the
  constructor of Booking leaves the member uninitialised, and confirmWaitlistedBooking
  compares the clock with whatever it holds.
\<close>

theorem second_in_queue_promoted_first:
  "queue_of ''C'' (waitlists (run init two_waiting_calls)) =
     [''B_C_1800000001'', ''D_C_1800000002''] \<and>
   map_option confirmationDeadline
     (map_of (bookings (run init two_waiting_calls)) ''B_C_1800000001'') = Some 1800003603 \<and>
   map_option confirmationDeadline
     (map_of (bookings (run init two_waiting_calls)) ''D_C_1800000002'') =
     Some 140737488355327 \<and>
   (1800000004 :: int) \<le> 1800003603 \<and> (1800000004 :: int) \<le> 140737488355327 \<and>
   fst (exec (ConfirmWaitlistedBooking ''D_C_1800000002'' 1800000004 1800000004 1800000004)
        (run init two_waiting_calls)) = Inr (Flag True) \<and>
   map fst
     (bookings (snd (exec
        (ConfirmWaitlistedBooking ''D_C_1800000002'' 1800000004 1800000004 1800000004)
        (run init two_waiting_calls)))) =
     [''A_C_1800000000'', ''B_C_1800000001'', ''D_C_1800000002''] \<and>
   map (status \<circ> snd)
     (bookings (snd (exec
        (ConfirmWaitlistedBooking ''D_C_1800000002'' 1800000004 1800000004 1800000004)
        (run init two_waiting_calls)))) =
     [CANCELED, WAITLISTED, CONFIRMED]"
  unfolding two_waiting_state by (simp add: model_defs)

text \<open>
  The promotion trigger itself keeps the order. After any sequence of calls, when
  cancelBooking cancels a CONFIRMED booking of a conference that has not started and the
  waitlist of that conference is not empty, the call succeeds, the waitlist keeps its order,
  the booking at its head, which is the one that has waited longest, gets the deadline
  \<open>now + 3600\<close>, and no booking other than this one and the cancelled one changes. Only the
  head is ever given a deadline in this way.
\<close>

lemma freed_slot_marks_head:
  assumes b: "map_of (bookings (run init cs)) bid = Some b"
    and st: "status b = CONFIRMED"
    and c: "map_of (conferences (run init cs)) (conferenceName b) = Some c"
    and ns: "\<not> hasStarted t1 c"
    and q: "queue_of (conferenceName b) (waitlists (run init cs)) = h # rest"
  shows "fst (cancelBooking bid t1 t2 (run init cs)) = Inr True \<and>
     queue_of (conferenceName b) (waitlists (snd (cancelBooking bid t1 t2 (run init cs)))) = h # rest \<and>
     map_option confirmationDeadline
       (map_of (bookings (snd (cancelBooking bid t1 t2 (run init cs)))) h) = Some (t2 + 3600) \<and>
     (\<forall>k. k \<noteq> h \<and> k \<noteq> bid \<longrightarrow>
        map_of (bookings (snd (cancelBooking bid t1 t2 (run init cs)))) k =
        map_of (bookings (run init cs)) k)"
proof -
  let ?s = "run init cs"
  note wf = consistent_run [of cs]
  from wf q obtain bh where bh: "map_of (bookings ?s) h = Some bh"
    unfolding consistent_def queued_known_def by (metis list.set_intros(1) not_None_eq)
  show ?thesis
    unfolding cancel_confirmed [OF wf b st c ns] using bh b q by auto
qed

lemma freed_slot_marks_head_instance:
  "map_of (bookings (run init (take 6 promote_calls))) ''A_C_1800000000'' =
     Some \<lparr>bookingId = ''A_C_1800000000'', bookingUserId = ''A'', conferenceName = ''C'',
            status = CONFIRMED, confirmationDeadline = 0\<rparr> \<and>
   queue_of ''C'' (waitlists (run init (take 6 promote_calls))) = [''B_C_1800000001''] \<and>
   fst (cancelBooking ''A_C_1800000000'' 1800000002 1800000002
     (run init (take 6 promote_calls))) = Inr True \<and>
   queue_of ''C'' (waitlists (snd (cancelBooking ''A_C_1800000000'' 1800000002 1800000002
     (run init (take 6 promote_calls))))) = [''B_C_1800000001''] \<and>
   map_option confirmationDeadline
     (map_of (bookings (snd (cancelBooking ''A_C_1800000000'' 1800000002 1800000002
        (run init (take 6 promote_calls))))) ''B_C_1800000001'') = Some 1800003602"
  using freed_slot_marks_head
    [of "take 6 promote_calls" "''A_C_1800000000''"
        "\<lparr>bookingId = ''A_C_1800000000'', bookingUserId = ''A'', conferenceName = ''C'',
           status = CONFIRMED, confirmationDeadline = 0\<rparr>"
        "\<lparr>name = ''C'', location = ''NY'', topics = [], startTime = 1800003600,
           endTime = 1800010800, totalSlots = 1, availableSlots = 0\<rparr>"
        1800000002 "''B_C_1800000001''" "[]" 1800000002]
  unfolding waiting_state by (simp add: model_defs)

end
